theory Spec2Isabelle
  imports Main "HOL-Library.Code_Target_Nat"
begin

section \<open>Strings of the host language\<close>

text \<open>
  A string of the program is a sequence of code units. The model keeps the code units
  below 256 (the Latin-1 range), which is what \<^typ>\<open>char\<close> holds; the words and the
  punctuation the chatbot looks for are all ASCII.

  \<open>toLowerCase\<close> maps \<open>A\<close>..\<open>Z\<close> and the Latin-1 capitals (192..222 without the
  multiplication sign 215) to the letter 32 places further on, and leaves every other
  code unit alone.
\<close>

definition toLowerChar :: "char \<Rightarrow> char" where
  "toLowerChar c =
     (let n = (of_char c :: nat)
      in if (65 \<le> n \<and> n \<le> 90) \<or> (192 \<le> n \<and> n \<le> 222 \<and> n \<noteq> 215)
         then char_of (n + 32) else c)"

definition toLowerCase :: "string \<Rightarrow> string" where
  "toLowerCase s = map toLowerChar s"

text \<open>\<open>s.startsWith(t)\<close>, \<open>s.endsWith(t)\<close> and \<open>s.includes(t)\<close>.\<close>

definition startsWith :: "string \<Rightarrow> string \<Rightarrow> bool" where
  "startsWith s t = (length t \<le> length s \<and> take (length t) s = t)"

definition endsWith :: "string \<Rightarrow> string \<Rightarrow> bool" where
  "endsWith s t = (length t \<le> length s \<and> drop (length s - length t) s = t)"

fun includes_str :: "string \<Rightarrow> string \<Rightarrow> bool" where
  "includes_str [] t = (t = [])"
| "includes_str (c # s) t = (startsWith (c # s) t \<or> includes_str s t)"

section \<open>Repository context and content cache\<close>

text \<open>
  The three context variables and the cache of \<open>chatbot.js\<close>. One entry of the flat
  file listing carries the \<open>path\<close> and the content locator \<open>url\<close>; of the repository
  data the chatbot reads the name, the description, the owner's login, the two
  counters and the license name.
\<close>

record file_entry =
  path :: string
  url :: string

record repo_data =
  name :: string
  description :: "string option"
  owner_login :: string
  stargazers_count :: nat
  forks_count :: nat
  license_name :: "string option"

datatype error = FetchError | SyntaxError | TypeError

text \<open>
  \<open>chatbotRepoData\<close> is \<open>None\<close> while it is \<open>null\<close>. \<open>chatbotRepoStructure\<close> is read
  only behind the test of \<open>chatbotRepoData\<close>, and \<open>initChatbot\<close> sets both at once, so
  it is a plain list, empty before the first analysis. \<open>fetched\<close> is not a variable
  of the program: it records every locator handed to the external
  \<open>fetchFileContent\<close>, in call order, so that external calls can be counted.
\<close>

record chatbot =
  chatbotRepoData :: "repo_data option"
  chatbotRepoStructure :: "file_entry list"
  chatbotLanguages :: "(string \<times> nat) list"
  fileContentCache :: "string \<rightharpoonup> string"
  fetched :: "string list"

text \<open>
  What the program calls but does not define: the remote \<open>fetchFileContent\<close>, whose
  answer may differ from one call to the next (the first argument is the number of
  external calls made before this one; \<open>None\<close> is a rejected fetch), the runtime's
  \<open>JSON.parse\<close> and the highlighter \<open>hljs.highlightAuto\<close>.
\<close>

datatype json =
    JNull
  | JBool bool
  | JNumber string
  | JString string
  | JArray "json list"
  | JObject "(string \<times> json) list"

record env =
  fetchFileContent :: "nat \<Rightarrow> string \<Rightarrow> string option"
  JSON_parse :: "string \<Rightarrow> json option"
  highlightAuto :: "string \<Rightarrow> string"

definition initial :: chatbot where
  "initial = \<lparr> chatbotRepoData = None, chatbotRepoStructure = [], chatbotLanguages = [],
               fileContentCache = Map.empty, fetched = [] \<rparr>"

definition initChatbot :: "repo_data \<Rightarrow> file_entry list \<Rightarrow> (string \<times> nat) list \<Rightarrow> chatbot \<Rightarrow> chatbot" where
  "initChatbot repoData structure languages st =
     st\<lparr> chatbotRepoData := Some repoData, chatbotRepoStructure := structure,
         chatbotLanguages := languages, fileContentCache := Map.empty \<rparr>"

text \<open>
  \<open>getFileContent\<close>: a hit returns the stored text; a miss awaits the external fetch,
  whose rejection leaves the function before the cache is written.
\<close>

definition getFileContent :: "env \<Rightarrow> string \<Rightarrow> chatbot \<Rightarrow> (error + string) \<times> chatbot" where
  "getFileContent E u st =
     (case fileContentCache st u of
        Some content \<Rightarrow> (Inr content, st)
      | None \<Rightarrow>
          (case fetchFileContent E (length (fetched st)) u of
             None \<Rightarrow> (Inl FetchError, st\<lparr> fetched := fetched st @ [u] \<rparr>)
           | Some content \<Rightarrow>
               (Inr content,
                st\<lparr> fetched := fetched st @ [u],
                    fileContentCache := (fileContentCache st)(u \<mapsto> content) \<rparr>)))"

text \<open>
  \<open>getFileContent\<close> above is one call that nothing interrupts. The function is
  \<open>async\<close>: a call that misses the cache hands the locator to the external fetch
  and is suspended at its \<open>await\<close>; it writes the cache only when the fetch has
  settled and the call is resumed, and other calls may run in between.
  \<open>getFileContent_call\<close> is the part up to the \<open>await\<close>: it returns the cached text
  (\<open>Inl\<close>), or issues the fetch and is suspended with what the fetch will yield
  (\<open>Inr\<close>). \<open>getFileContent_resume\<close> is the part after it.
\<close>

definition getFileContent_call :: "env \<Rightarrow> string \<Rightarrow> chatbot \<Rightarrow> (string + string option) \<times> chatbot" where
  "getFileContent_call E u st =
     (case fileContentCache st u of
        Some content \<Rightarrow> (Inl content, st)
      | None \<Rightarrow>
          (Inr (fetchFileContent E (length (fetched st)) u),
           st\<lparr> fetched := fetched st @ [u] \<rparr>))"

definition getFileContent_resume :: "string \<Rightarrow> string option \<Rightarrow> chatbot \<Rightarrow> (error + string) \<times> chatbot" where
  "getFileContent_resume u response st =
     (case response of
        None \<Rightarrow> (Inl FetchError, st)
      | Some content \<Rightarrow>
          (Inr content, st\<lparr> fileContentCache := (fileContentCache st)(u \<mapsto> content) \<rparr>))"

text \<open>
  A session of calls: the variables of the program, the calls suspended at their
  fetch (locator and outcome of the fetch), and the calls that have returned or
  thrown, with their locators, in the order in which they finished. \<open>Call u\<close> starts
  a call for \<open>u\<close>; \<open>Settle k\<close> settles the fetch of the \<open>k\<close>-th suspended call and resumes
  that call, and does nothing when there is no such call.
\<close>

record session =
  globals :: chatbot
  suspended :: "(string \<times> string option) list"
  completed :: "(string \<times> (error + string)) list"

datatype event = Call string | Settle nat

fun step :: "env \<Rightarrow> session \<Rightarrow> event \<Rightarrow> session" where
  "step E S (Call u) =
     (case getFileContent_call E u (globals S) of
        (Inl content, st') \<Rightarrow>
          S\<lparr> globals := st', completed := completed S @ [(u, Inr content)] \<rparr>
      | (Inr response, st') \<Rightarrow>
          S\<lparr> globals := st', suspended := suspended S @ [(u, response)] \<rparr>)"
| "step E S (Settle k) =
     (if k < length (suspended S) then
        (case getFileContent_resume (fst (suspended S ! k)) (snd (suspended S ! k)) (globals S) of
           (r, st') \<Rightarrow>
             S\<lparr> globals := st',
                suspended := take k (suspended S) @ drop (Suc k) (suspended S),
                completed := completed S @ [(fst (suspended S ! k), r)] \<rparr>)
      else S)"




section \<open>File locator\<close>

text \<open>\<open>Array.prototype.find\<close> is \<^const>\<open>List.find\<close>; \<open>undefined\<close> is \<open>None\<close>.\<close>

definition findFileInStructure :: "chatbot \<Rightarrow> string \<Rightarrow> file_entry option" where
  "findFileInStructure st fileName =
     (case List.find (\<lambda>f. toLowerCase (path f) = toLowerCase fileName) (chatbotRepoStructure st) of
        Some file \<Rightarrow> Some file
      | None \<Rightarrow>
          List.find (\<lambda>f. endsWith (toLowerCase (path f)) (''/'' @ toLowerCase fileName))
            (chatbotRepoStructure st))"

section \<open>Regular expressions of the host language\<close>

text \<open>
  The patterns of the intent table and of \<open>handleExplainCode\<close> use literals,
  character classes, the dot, the two anchors, alternation, the greedy quantifiers
  \<open>?\<close>, \<open>*\<close>, \<open>+\<close> and capture groups, under the flags \<open>i\<close> and \<open>s\<close>. \<open>run\<close> is
  the backtracking matcher of the language: it lists, in the order in which
  backtracking tries them, the ways the node can match at the front of the remaining
  input, each with the input left over and the captures so far (the latest first).
  A quantifier gives up an iteration that consumed nothing.
\<close>

definition toUpperChar :: "char \<Rightarrow> char" where
  "toUpperChar c =
     (let n = (of_char c :: nat)
      in if (97 \<le> n \<and> n \<le> 122) \<or> (224 \<le> n \<and> n \<le> 254 \<and> n \<noteq> 247)
         then char_of (n - 32) else c)"

datatype citem = CChar char | CWord | CSpace

datatype node =
    Lit string
  | Cls "citem list"
  | Dot
  | Bol
  | Eol
  | Seq node node
  | Alt node node
  | Opt node
  | Star node
  | Group nat node

record regexp =
  source :: node
  ignoreCase :: bool
  dotAll :: bool

definition isWordChar :: "char \<Rightarrow> bool" where
  "isWordChar c =
     (let n = (of_char c :: nat)
      in (48 \<le> n \<and> n \<le> 57) \<or> (65 \<le> n \<and> n \<le> 90) \<or> n = 95 \<or> (97 \<le> n \<and> n \<le> 122))"

definition isWhiteSpace :: "char \<Rightarrow> bool" where
  "isWhiteSpace c = ((of_char c :: nat) \<in> {9, 10, 11, 12, 13, 32, 160})"

definition isLineTerminator :: "char \<Rightarrow> bool" where
  "isLineTerminator c = ((of_char c :: nat) \<in> {10, 13})"

text \<open>
  Under \<open>i\<close> two code units match when their upper-case forms agree. The upper-case
  forms of 181 and 255 lie beyond 255 and belong to no other code unit of the model,
  and that of 223 is two units long, so these three stay as they are.
\<close>

definition canonicalize :: "bool \<Rightarrow> char \<Rightarrow> char" where
  "canonicalize ic c = (if ic then toUpperChar c else c)"

fun inItem :: "bool \<Rightarrow> char \<Rightarrow> citem \<Rightarrow> bool" where
  "inItem ic c (CChar a) = (canonicalize ic a = canonicalize ic c)"
| "inItem ic c CWord = isWordChar c"
| "inItem ic c CSpace = isWhiteSpace c"

type_synonym captures = "(nat \<times> string) list"

fun run :: "regexp \<Rightarrow> nat \<Rightarrow> node \<Rightarrow> string \<Rightarrow> captures \<Rightarrow> (string \<times> captures) list" where
  "run R n (Lit w) s c =
     (if length w \<le> length s \<and>
         map (canonicalize (ignoreCase R)) (take (length w) s) = map (canonicalize (ignoreCase R)) w
      then [(drop (length w) s, c)] else [])"
| "run R n (Cls items) s c =
     (case s of [] \<Rightarrow> []
      | x # s' \<Rightarrow> if list_ex (inItem (ignoreCase R) x) items then [(s', c)] else [])"
| "run R n Dot s c =
     (case s of [] \<Rightarrow> []
      | x # s' \<Rightarrow> if dotAll R \<or> \<not> isLineTerminator x then [(s', c)] else [])"
| "run R n Bol s c = (if length s = n then [(s, c)] else [])"
| "run R n Eol s c = (if s = [] then [(s, c)] else [])"
| "run R n (Seq a b) s c = concat (map (\<lambda>(s', c'). run R n b s' c') (run R n a s c))"
| "run R n (Alt a b) s c = run R n a s c @ run R n b s c"
| "run R n (Opt a) s c = filter (\<lambda>(s', c'). length s' < length s) (run R n a s c) @ [(s, c)]"
| "run R n (Star a) s c =
     concat (map (\<lambda>(s', c'). if length s' < length s then run R n (Star a) s' c' else [])
                 (run R n a s c)) @ [(s, c)]"
| "run R n (Group k a) s c =
     map (\<lambda>(s', c'). (s', (k, take (length s - length s') s) # c')) (run R n a s c)"

definition OneOrMore :: "node \<Rightarrow> node" where
  "OneOrMore a = Seq a (Star a)"

fun cat :: "node list \<Rightarrow> node" where
  "cat [] = Lit []"
| "cat [a] = a"
| "cat (a # b # bs) = Seq a (cat (b # bs))"

fun alts :: "node list \<Rightarrow> node" where
  "alts [] = Lit []"
| "alts [a] = a"
| "alts (a # b # bs) = Alt a (alts (b # bs))"

text \<open>
  \<open>message.match(pattern)\<close> for a pattern without the \<open>g\<close> flag: the match at the
  leftmost start index that has one, and at that index the first way \<open>run\<close> finds.
  \<open>group m k\<close> is \<open>match[k]\<close>, \<open>None\<close> where it is \<open>undefined\<close>: the text the
  group captured last.
\<close>

record matched =
  whole :: string
  groups :: captures

definition group :: "matched \<Rightarrow> nat \<Rightarrow> string option" where
  "group m k = map_of (groups m) k"

fun exec_from :: "regexp \<Rightarrow> nat \<Rightarrow> string \<Rightarrow> matched option" where
  "exec_from R n [] =
     (case run R n (source R) [] [] of
        [] \<Rightarrow> None
      | (s', c) # _ \<Rightarrow> Some \<lparr> whole = [], groups = c \<rparr>)"
| "exec_from R n (x # s) =
     (case run R n (source R) (x # s) [] of
        [] \<Rightarrow> exec_from R n s
      | (s', c) # _ \<Rightarrow> Some \<lparr> whole = take (length (x # s) - length s') (x # s), groups = c \<rparr>)"

definition match :: "string \<Rightarrow> regexp \<Rightarrow> matched option" where
  "match s R = exec_from R (length s) s"

definition test :: "regexp \<Rightarrow> string \<Rightarrow> bool" where
  "test R s = (match s R \<noteq> None)"

section \<open>Values of the host language\<close>

text \<open>
  The decimal form of a counter, as a template literal prints it (the counters are
  far below the size where the language switches to exponent notation).
\<close>

fun show_nat :: "nat \<Rightarrow> string" where
  "show_nat n =
     (if n < 10 then [''0123456789'' ! n]
      else show_nat (n div 10) @ [''0123456789'' ! (n mod 10)])"

text \<open>
  \<open>JSON.parse\<close> yields a \<^typ>\<open>json\<close> value: a number is kept as the text the language
  prints for it, an object as its own properties in enumeration order. Reading a
  property of \<open>null\<close> throws; a primitive or an array has no property of the two names
  the chatbot reads, so the result is \<open>undefined\<close> (\<open>None\<close>).
\<close>

fun getProperty :: "json \<Rightarrow> string \<Rightarrow> error + json option" where
  "getProperty JNull k = Inl TypeError"
| "getProperty (JObject ps) k = Inr (map_of ps k)"
| "getProperty v k = Inr None"

text \<open>
  An array index is the canonical decimal form of a number up to \<open>2\<^sup>3\<^sup>2 - 2\<close>. An
  object enumerates its array-index keys first, in ascending order, then its other
  keys in the order of creation; \<open>defineProperty\<close> creates or overwrites one property.
\<close>

definition arrayIndex :: "string \<Rightarrow> nat option" where
  "arrayIndex k =
     (let v = foldl (\<lambda>a c. 10 * a + (of_char c - 48)) 0 k
      in if k \<noteq> [] \<and> list_all (\<lambda>c. 48 \<le> (of_char c :: nat) \<and> (of_char c :: nat) \<le> 57) k
            \<and> (k = ''0'' \<or> hd k \<noteq> CHR ''0'') \<and> v \<le> 4294967294
         then Some v else None)"

definition indexBelow :: "nat \<Rightarrow> string \<times> json \<Rightarrow> bool" where
  "indexBelow i p = (case arrayIndex (fst p) of Some j \<Rightarrow> j < i | None \<Rightarrow> False)"

definition defineProperty :: "(string \<times> json) list \<Rightarrow> string \<times> json \<Rightarrow> (string \<times> json) list" where
  "defineProperty ps p =
     (if fst p \<in> fst ` set ps then map (\<lambda>q. if fst q = fst p then p else q) ps
      else (case arrayIndex (fst p) of
              None \<Rightarrow> ps @ [p]
            | Some i \<Rightarrow> takeWhile (indexBelow i) ps @ [p] @ dropWhile (indexBelow i) ps))"

text \<open>
  The properties that \<open>{...v}\<close> copies: none for \<open>undefined\<close>, \<open>null\<close>, a boolean or a
  number, the code units of a string and the elements of an array under their
  indices, and the own properties of an object.
\<close>

fun ownEntries :: "json option \<Rightarrow> (string \<times> json) list" where
  "ownEntries (Some (JString s)) = map (\<lambda>i. (show_nat i, JString [s ! i])) [0..<length s]"
| "ownEntries (Some (JArray xs)) = map (\<lambda>i. (show_nat i, xs ! i)) [0..<length xs]"
| "ownEntries (Some (JObject ps)) = ps"
| "ownEntries v = []"

definition spread :: "json option \<Rightarrow> json option \<Rightarrow> (string \<times> json) list" where
  "spread a b = foldl defineProperty [] (ownEntries a @ ownEntries b)"

text \<open>
  The text a template literal prints for a value. An array joins its elements with
  commas, \<open>null\<close> elements as the empty text. An object prints as \<open>[object Object]\<close>
  unless it has a property \<open>toString\<close> of its own, which hides the inherited method:
  then the conversion throws (\<open>None\<close>).
\<close>

fun join :: "string \<Rightarrow> string list \<Rightarrow> string" where
  "join sep [] = []"
| "join sep [x] = x"
| "join sep (x # y # ys) = x @ sep @ join sep (y # ys)"

fun sequence :: "'a option list \<Rightarrow> 'a list option" where
  "sequence [] = Some []"
| "sequence (None # xs) = None"
| "sequence (Some x # xs) = (case sequence xs of None \<Rightarrow> None | Some ys \<Rightarrow> Some (x # ys))"

fun toString :: "json \<Rightarrow> string option" where
  "toString JNull = Some ''null''"
| "toString (JBool b) = Some (if b then ''true'' else ''false'')"
| "toString (JNumber r) = Some r"
| "toString (JString s) = Some s"
| "toString (JArray xs) =
     map_option (join '','')
       (sequence (map (\<lambda>x. if x = JNull then Some [] else toString x) xs))"
| "toString (JObject ps) =
     (if ''toString'' \<in> fst ` set ps then None else Some ''[object Object]'')"

text \<open>\<open>content.split('\n')\<close> and \<open>lines.findIndex(p)\<close> (\<open>None\<close> is \<open>-1\<close>).\<close>

fun split :: "char \<Rightarrow> string \<Rightarrow> string list" where
  "split d [] = [[]]"
| "split d (x # xs) =
     (if x = d then [] # split d xs
      else (case split d xs of [] \<Rightarrow> [[x]] | l # ls \<Rightarrow> (x # l) # ls))"

fun findIndex :: "('a \<Rightarrow> bool) \<Rightarrow> 'a list \<Rightarrow> nat option" where
  "findIndex p [] = None"
| "findIndex p (x # xs) = (if p x then Some 0 else map_option Suc (findIndex p xs))"

section \<open>Intent handlers\<close>

type_synonym response = "(error + string) \<times> chatbot"

type_synonym handler = "matched \<Rightarrow> string \<Rightarrow> env \<Rightarrow> chatbot \<Rightarrow> response"

text \<open>
  A handler returns the text of its answer (\<open>Inr\<close>) or throws (\<open>Inl\<close>), and hands on
  the state. Reading a field of \<open>chatbotRepoData\<close> while it is \<open>null\<close> throws.
\<close>

definition withRepoData :: "chatbot \<Rightarrow> (repo_data \<Rightarrow> string) \<Rightarrow> response" where
  "withRepoData st f =
     (case chatbotRepoData st of None \<Rightarrow> (Inl TypeError, st) | Some d \<Rightarrow> (Inr (f d), st))"

definition handleGreet :: handler where
  "handleGreet m message E st =
     withRepoData st (\<lambda>d. ''Hello! How can I help you with the **'' @ name d @ ''** repository?'')"

definition handleAbout :: handler where
  \<open>handleAbout m message E st =
     withRepoData st (\<lambda>d.
       ''This is the **'' @ name d @ ''** repository. The description says: "''
       @ (case description d of
            None \<Rightarrow> ''No description provided.''
          | Some t \<Rightarrow> if t = [] then ''No description provided.'' else t)
       @ ''"'')\<close>

definition helpText :: string where
  \<open>helpText =
     ''I can help you understand this repository. Try asking me things like:'' @ [CHR 0x0A]
     @ ''        <ul>'' @ [CHR 0x0A]
     @ ''            <li>"What is this project about?"</li>'' @ [CHR 0x0A]
     @ ''            <li>"Show me the package.json file"</li>'' @ [CHR 0x0A]
     @ ''            <li>"What are the dependencies?"</li>'' @ [CHR 0x0A]
     @ ''            <li>"What does the '' @ [CHR 0x27] @ ''handleAnalysis'' @ [CHR 0x27]
     @ '' function do?"</li>'' @ [CHR 0x0A]
     @ ''            <li>"Who is the owner?"</li>'' @ [CHR 0x0A]
     @ ''        </ul>''\<close>

definition handleHelp :: handler where
  "handleHelp m message E st = (Inr helpText, st)"

definition ownerText :: "repo_data \<Rightarrow> string" where
  "ownerText d = ''The owner of this repository is **'' @ owner_login d @ ''**.''"

definition starsText :: "repo_data \<Rightarrow> string" where
  "starsText d = ''It has **'' @ show_nat (stargazers_count d) @ ''** stars.''"

definition forksText :: "repo_data \<Rightarrow> string" where
  "forksText d = ''It has **'' @ show_nat (forks_count d) @ ''** forks.''"

definition licenseText :: "repo_data \<Rightarrow> string" where
  "licenseText d =
     ''The repository is under the **''
     @ (case license_name d of Some l \<Rightarrow> l | None \<Rightarrow> ''N/A'') @ ''** license.''"

definition metadataNotFound :: string where
  "metadataNotFound = ''I couldn'' @ [CHR 0x27] @ ''t find that specific piece of information.''"

definition handleGetMetadata :: handler where
  "handleGetMetadata m message E st =
     (let keyword = toLowerCase message
      in if includes_str keyword ''owner'' \<or> includes_str keyword ''author'' then
           withRepoData st ownerText
         else if includes_str keyword ''stars'' then withRepoData st starsText
         else if includes_str keyword ''forks'' then withRepoData st forksText
         else if includes_str keyword ''license'' then withRepoData st licenseText
         else (Inr metadataNotFound, st))"

definition viewFileButton :: "string \<Rightarrow> file_entry \<Rightarrow> string" where
  \<open>viewFileButton label file =
     ''<button class="chat-action-btn" data-action="view-file" data-url="'' @ url file
     @ ''" data-path="'' @ path file @ ''">'' @ label @ ''</button>''\<close>

definition fileNotFound :: "string \<Rightarrow> string" where
  "fileNotFound fileName =
     ''Sorry, I couldn'' @ [CHR 0x27] @ ''t find a file named `'' @ fileName @ ''`.''"

text \<open>
  \<open>handleFindFile\<close> reads \<open>match[3]\<close>. The pattern of the table always sets that group;
  were it \<open>undefined\<close>, the locator would throw at the first entry it compares.
\<close>

definition handleFindFile :: handler where
  "handleFindFile m message E st =
     (case group m 3 of
        None \<Rightarrow>
          if chatbotRepoStructure st = [] then (Inr (fileNotFound ''undefined''), st)
          else (Inl TypeError, st)
      | Some fileName \<Rightarrow>
          (case findFileInStructure st fileName of
             Some file \<Rightarrow>
               (Inr (''I found the file `'' @ path file @ ''`.<br>''
                     @ viewFileButton ''Click here to view it'' file), st)
           | None \<Rightarrow> (Inr (fileNotFound fileName), st)))"

definition noManifest :: string where
  "noManifest =
     ''I couldn'' @ [CHR 0x27] @ ''t find a `package.json` file to check for dependencies.''"

definition unreadableManifest :: string where
  "unreadableManifest = ''I found a `package.json`, but I had trouble reading it.''"

definition noDependencies :: string where
  "noDependencies = ''`package.json` was found, but it lists no dependencies.''"

definition dependencyItem :: "string \<times> json \<Rightarrow> string option" where
  "dependencyItem p =
     map_option (\<lambda>version. ''<li><strong>'' @ fst p @ ''</strong>: '' @ version @ ''</li>'')
       (toString (snd p))"

definition dependencyList :: "(string \<times> json) list \<Rightarrow> string option" where
  \<open>dependencyList dependencies =
     map_option
       (\<lambda>items. ''Here are the dependencies from `package.json`:<ul class="chat-list">''
                 @ concat items @ ''</ul>'')
       (sequence (map dependencyItem dependencies))\<close>

text \<open>The statements of the \<open>try\<close> block that follow the awaited content.\<close>

definition readDependencies :: "env \<Rightarrow> string \<Rightarrow> error + string" where
  "readDependencies E content =
     (case JSON_parse E content of
        None \<Rightarrow> Inl SyntaxError
      | Some data \<Rightarrow>
          (case getProperty data ''dependencies'' of
             Inl e \<Rightarrow> Inl e
           | Inr deps \<Rightarrow>
               (case getProperty data ''devDependencies'' of
                  Inl e \<Rightarrow> Inl e
                | Inr devDeps \<Rightarrow>
                    (let dependencies = spread deps devDeps
                     in if length dependencies > 0 then
                          (case dependencyList dependencies of
                             None \<Rightarrow> Inl TypeError
                           | Some response \<Rightarrow> Inr response)
                        else Inr noDependencies))))"

definition handleListDependencies :: handler where
  "handleListDependencies m message E st =
     (case findFileInStructure st ''package.json'' of
        Some packageJson \<Rightarrow>
          (case getFileContent E (url packageJson) st of
             (Inl e, st') \<Rightarrow> (Inr unreadableManifest, st')
           | (Inr content, st') \<Rightarrow>
               (case readDependencies E content of
                  Inl e \<Rightarrow> (Inr unreadableManifest, st')
                | Inr response \<Rightarrow> (Inr response, st')))
      | None \<Rightarrow> (Inr noManifest, st))"

text \<open>
  The pattern \<open>handleExplainCode\<close> builds around the function name, under the flag
  \<open>s\<close>. The name comes from a group of word characters, so it stands for itself in
  the pattern.
\<close>

definition functionRegex :: "string \<Rightarrow> regexp" where
  "functionRegex functionName =
     (let ws = Cls [CSpace];
          arrow = (\<lambda>kw. cat [Lit kw, OneOrMore ws, Lit functionName, Star ws, Lit ''='', Star ws,
                              Lit ''('', Star Dot, Lit '')'', Star ws, Lit ''=>''])
      in \<lparr> source = Group 1 (alts [cat [Lit ''function'', OneOrMore ws, Lit functionName],
                                   arrow ''const'', arrow ''let'']),
           ignoreCase = False, dotAll = True \<rparr>)"

definition functionFound :: "env \<Rightarrow> string \<Rightarrow> file_entry \<Rightarrow> string \<Rightarrow> string" where
  \<open>functionFound E functionName file codeSnippet =
     ''I found a function named `'' @ functionName @ ''` in `'' @ path file
     @ ''`. Here'' @ [CHR 0x27] @ ''s a snippet:'' @ [CHR 0x0A]
     @ ''                <pre><code class="hljs">'' @ highlightAuto E codeSnippet
     @ ''</code></pre>'' @ [CHR 0x0A]
     @ ''                '' @ viewFileButton ''View the full file'' file\<close>

definition functionNotFound :: "string \<Rightarrow> string" where
  "functionNotFound functionName =
     ''I couldn'' @ [CHR 0x27] @ ''t find a function named `'' @ functionName
     @ ''` in any of the JavaScript files.''"

fun explainLoop :: "env \<Rightarrow> string \<Rightarrow> file_entry list \<Rightarrow> chatbot \<Rightarrow> response" where
  "explainLoop E functionName [] st = (Inr (functionNotFound functionName), st)"
| "explainLoop E functionName (file # files) st =
     (case getFileContent E (url file) st of
        (Inl e, st') \<Rightarrow> (Inl e, st')
      | (Inr content, st') \<Rightarrow>
          if test (functionRegex functionName) content then
            (let lines = split (CHR 0x0A) content
             in case findIndex (\<lambda>line. match line (functionRegex functionName) \<noteq> None) lines of
                  Some startLine \<Rightarrow>
                    (Inr (functionFound E functionName file
                            (join [CHR 0x0A] (take 15 (drop startLine lines)))), st')
                | None \<Rightarrow> explainLoop E functionName files st')
          else explainLoop E functionName files st')"

definition handleExplainCode :: handler where
  "handleExplainCode m message E st =
     (let functionName = (case group m 2 of Some w \<Rightarrow> w | None \<Rightarrow> ''undefined'');
          relevantFiles = filter (\<lambda>file. endsWith (path file) ''.js'') (chatbotRepoStructure st)
      in explainLoop E functionName relevantFiles st)"

section \<open>Intent recognition and response generation\<close>

record intent =
  intent_name :: string
  patterns :: "regexp list"
  handler :: handler

definition ci :: "node \<Rightarrow> regexp" where
  "ci r = \<lparr> source = r, ignoreCase = True, dotAll = False \<rparr>"

definition intents :: "intent list" where
  "intents =
     [ \<lparr> intent_name = ''greet'',
         patterns = [ci (cat [Bol, Lit ''h'', Group 1 (alts [Lit ''i'', Lit ''ello'']), Eol])],
         handler = handleGreet \<rparr>,
       \<lparr> intent_name = ''about'',
         patterns = [ci (cat [Bol, Group 1 (alts [Lit ''what is this'', Lit ''about'',
                                                  Lit ''describe'', Lit ''purpose''])])],
         handler = handleAbout \<rparr>,
       \<lparr> intent_name = ''find_file'',
         patterns = [ci (cat [Group 1 (alts [Lit ''find'', Lit ''show me'', Lit ''where is'',
                                             Lit ''open'', Lit ''get'']),
                              Lit '' '', Opt (Group 2 (Lit ''the '')),
                              Group 3 (OneOrMore (Cls [CWord, CChar (CHR ''.''), CChar (CHR ''-''),
                                                       CChar (CHR ''/'')]))])],
         handler = handleFindFile \<rparr>,
       \<lparr> intent_name = ''list_dependencies'',
         patterns = [ci (Group 1 (alts [Lit ''dependencies'', Lit ''packages'', Lit ''libraries'',
                                        Lit ''libs'']))],
         handler = handleListDependencies \<rparr>,
       \<lparr> intent_name = ''explain_code'',
         patterns = [ci (cat [Group 1 (alts [Lit ''what does'', Lit ''explain'', Lit ''how does'']),
                              Lit '' '', Opt (Cls [CChar (CHR ''`''), CChar (CHR 0x27)]),
                              Group 2 (OneOrMore (Cls [CWord])),
                              Opt (Cls [CChar (CHR ''`''), CChar (CHR 0x27)]),
                              Lit '' '', Group 3 (alts [Lit ''function'', Lit ''method'', Lit ''do''])])],
         handler = handleExplainCode \<rparr>,
       \<lparr> intent_name = ''get_metadata'',
         patterns = [ci (Group 1 (alts [Lit ''owner'', Lit ''author'', Lit ''stars'', Lit ''forks'',
                                        Lit ''license'']))],
         handler = handleGetMetadata \<rparr>,
       \<lparr> intent_name = ''help'',
         patterns = [ci (cat [Bol, Lit ''help'', Eol]), ci (Lit ''what can you do'')],
         handler = handleHelp \<rparr> ]"

text \<open>
  The two loops of \<open>generateChatbotResponse\<close>: \<open>firstMatch\<close> tries the patterns of one
  intent, \<open>respond\<close> the intents of the table.
\<close>

fun firstMatch :: "regexp list \<Rightarrow> string \<Rightarrow> matched option" where
  "firstMatch [] message = None"
| "firstMatch (pattern # rest) message =
     (case match message pattern of
        Some m \<Rightarrow> Some m
      | None \<Rightarrow> firstMatch rest message)"

definition notUnderstood :: string where
  "notUnderstood =
     ''I'' @ [CHR 0x27] @ ''m not sure how to answer that. Try asking ''
     @ [CHR 0x27] @ ''help'' @ [CHR 0x27] @ '' to see what I can do.''"

fun respond :: "intent list \<Rightarrow> env \<Rightarrow> string \<Rightarrow> chatbot \<Rightarrow> response" where
  "respond [] E message st = (Inr notUnderstood, st)"
| "respond (i # rest) E message st =
     (case firstMatch (patterns i) message of
        Some m \<Rightarrow> handler i m message E st
      | None \<Rightarrow> respond rest E message st)"

definition analyzeFirst :: string where
  "analyzeFirst = ''Please analyze a repository first.''"

definition generateChatbotResponse :: "env \<Rightarrow> string \<Rightarrow> chatbot \<Rightarrow> response" where
  "generateChatbotResponse E message st =
     (case chatbotRepoData st of
        None \<Rightarrow> (Inr analyzeFirst, st)
      | Some d \<Rightarrow> respond intents E message st)"

section \<open>Vocabulary of the properties\<close>

text \<open>
  \<open>firstWith P xs x\<close>: \<open>x\<close> is the first element of \<open>xs\<close>, in listing order, that
  satisfies \<open>P\<close>. A path matches a file name exactly when the two agree up to case,
  and as a nested path when, up to case, it ends with a slash and the name.
\<close>

definition firstWith :: "('a \<Rightarrow> bool) \<Rightarrow> 'a list \<Rightarrow> 'a \<Rightarrow> bool" where
  "firstWith P xs x = (\<exists>i<length xs. xs ! i = x \<and> P x \<and> (\<forall>j<i. \<not> P (xs ! j)))"

definition exactPath :: "string \<Rightarrow> file_entry \<Rightarrow> bool" where
  "exactPath fileName f = (toLowerCase (path f) = toLowerCase fileName)"

definition nestedPath :: "string \<Rightarrow> file_entry \<Rightarrow> bool" where
  "nestedPath fileName f = (\<exists>dir. toLowerCase (path f) = dir @ ''/'' @ toLowerCase fileName)"

definition lowerAscii :: "char \<Rightarrow> bool" where
  "lowerAscii k = (97 \<le> (of_char k :: nat) \<and> (of_char k :: nat) \<le> 122)"

text \<open>
  The listing of dependencies: a heading, one item for each name with its version,
  and the end of the list. \<open>printed\<close> gives the names with their versions as text,
  if every version has one.
\<close>

definition dependencyListing :: "(string \<times> string) list \<Rightarrow> string" where
  \<open>dependencyListing entries =
     ''Here are the dependencies from `package.json`:<ul class="chat-list">''
     @ concat (map (\<lambda>e. ''<li><strong>'' @ fst e @ ''</strong>: '' @ snd e @ ''</li>'') entries)
     @ ''</ul>''\<close>

definition printed :: "(string \<times> json) list \<Rightarrow> (string \<times> string) list option" where
  "printed ps = sequence (map (\<lambda>p. map_option (Pair (fst p)) (toString (snd p))) ps)"

text \<open>
  \<open>manifestText\<close>: the manifest is located and \<open>content\<close> is its text, from the cache
  or the remote side. \<open>manifestSections\<close>: that text parses, and \<open>deps\<close> and \<open>devDeps\<close>
  are what the parsed value has under \<open>dependencies\<close> and \<open>devDependencies\<close>.
\<close>

definition manifestText :: "env \<Rightarrow> chatbot \<Rightarrow> string \<Rightarrow> bool" where
  "manifestText E st content =
     (\<exists>f. findFileInStructure st ''package.json'' = Some f
          \<and> fst (getFileContent E (url f) st) = Inr content)"

definition manifestSections :: "env \<Rightarrow> chatbot \<Rightarrow> json option \<Rightarrow> json option \<Rightarrow> bool" where
  "manifestSections E st deps devDeps =
     (\<exists>content data. manifestText E st content \<and> JSON_parse E content = Some data
        \<and> getProperty data ''dependencies'' = Inr deps
        \<and> getProperty data ''devDependencies'' = Inr devDeps)"

text \<open>
  The scripts are the entries of the listing whose path ends in \<open>.js\<close>. A text
  declares a function when the pattern of \<open>handleExplainCode\<close> for its name matches
  in it; \<open>firstDeclaringLine\<close> says which line of a text is the first to do so.
  \<open>available\<close>: each of the files has the text \<open>c\<close> gives for its locator, in the
  cache already or from the remote side whenever it is asked.
\<close>

definition scripts :: "chatbot \<Rightarrow> file_entry list" where
  "scripts st = filter (\<lambda>file. endsWith (path file) ''.js'') (chatbotRepoStructure st)"

definition declares :: "string \<Rightarrow> string \<Rightarrow> bool" where
  "declares functionName text = test (functionRegex functionName) text"

definition hasDeclaringLine :: "string \<Rightarrow> string \<Rightarrow> bool" where
  "hasDeclaringLine functionName text =
     (\<exists>line\<in>set (split (CHR 0x0A) text). declares functionName line)"

definition firstDeclaringLine :: "string \<Rightarrow> string \<Rightarrow> nat \<Rightarrow> bool" where
  "firstDeclaringLine functionName text i =
     (let lines = split (CHR 0x0A) text
      in i < length lines \<and> declares functionName (lines ! i)
         \<and> (\<forall>j<i. \<not> declares functionName (lines ! j)))"

definition available :: "env \<Rightarrow> chatbot \<Rightarrow> (string \<Rightarrow> string) \<Rightarrow> file_entry list \<Rightarrow> bool" where
  "available E st c files =
     (\<forall>f\<in>set files.
        fileContentCache st (url f) = Some (c (url f))
        \<or> (fileContentCache st (url f) = None
            \<and> (\<forall>n. fetchFileContent E n (url f) = Some (c (url f)))))"

text \<open>A pattern without anchors.\<close>

fun anchorFree :: "node \<Rightarrow> bool" where
  "anchorFree Bol = False"
| "anchorFree Eol = False"
| "anchorFree (Seq a b) = (anchorFree a \<and> anchorFree b)"
| "anchorFree (Alt a b) = (anchorFree a \<and> anchorFree b)"
| "anchorFree (Opt a) = anchorFree a"
| "anchorFree (Star a) = anchorFree a"
| "anchorFree (Group k a) = anchorFree a"
| "anchorFree a = True"

text \<open>The JSON object that gives each of the names its version as a string.\<close>

definition stringEntries :: "(string \<times> string) list \<Rightarrow> json" where
  "stringEntries es = JObject (map (\<lambda>e. (fst e, JString (snd e))) es)"

subsection \<open>A sample session\<close>

text \<open>
  A repository with a nested and a top-level \<open>package.json\<close> and one script. The
  remote side serves the script and the top-level manifest and rejects every other
  locator; \<open>sampleParse\<close> is \<open>JSON.parse\<close> on the texts that occur.
\<close>

definition sampleData :: repo_data where
  "sampleData = \<lparr> name = ''demo'', description = None, owner_login = ''octocat'',
                   stargazers_count = 12, forks_count = 3, license_name = None \<rparr>"

definition sampleFiles :: "file_entry list" where
  "sampleFiles =
     [ \<lparr> path = ''src/package.json'', url = ''u0'' \<rparr>,
       \<lparr> path = ''src/app.js'', url = ''u1'' \<rparr>,
       \<lparr> path = ''package.json'', url = ''u2'' \<rparr> ]"

definition sampleManifest :: string where
  \<open>sampleManifest = ''{"dependencies":{"left-pad":"^1.0.0"}}''\<close>

definition sampleScript :: string where
  "sampleScript = ''// app'' @ [CHR 0x0A] @ ''function foo() {'' @ [CHR 0x0A] @ ''}''"

definition overlapManifest :: string where
  \<open>overlapManifest = ''{"dependencies":{"a":"1","b":"2"},"devDependencies":{"b":"3"}}''\<close>

definition sampleParse :: "string \<Rightarrow> json option" where
  "sampleParse text =
     (if text = sampleManifest
      then Some (JObject [(''dependencies'', JObject [(''left-pad'', JString ''^1.0.0'')])])
      else if text = overlapManifest
      then Some (JObject [(''dependencies'', JObject [(''a'', JString ''1''), (''b'', JString ''2'')]),
                          (''devDependencies'', JObject [(''b'', JString ''3'')])])
      else if text = ''null'' then Some JNull
      else None)"

definition sampleEnv :: env where
  "sampleEnv =
     \<lparr> fetchFileContent =
         (\<lambda>n u. if u = ''u1'' then Some sampleScript
                else if u = ''u2'' then Some sampleManifest else None),
       JSON_parse = sampleParse,
       highlightAuto = (\<lambda>code. code) \<rparr>"

definition sampleState :: chatbot where
  "sampleState = initChatbot sampleData sampleFiles [] initial"

text \<open>
  Three other remote sides: one that rejects every fetch, and two that serve another
  text as the top-level manifest.
\<close>

definition offlineEnv :: env where
  "offlineEnv = sampleEnv\<lparr> fetchFileContent := (\<lambda>n u. None) \<rparr>"

definition nullManifestEnv :: env where
  "nullManifestEnv = sampleEnv\<lparr> fetchFileContent := (\<lambda>n u. if u = ''u2'' then Some ''null'' else None) \<rparr>"

definition overlapEnv :: env where
  "overlapEnv = sampleEnv\<lparr> fetchFileContent := (\<lambda>n u. if u = ''u2'' then Some overlapManifest else None) \<rparr>"

definition dependenciesMatch :: matched where
  "dependenciesMatch = \<lparr> whole = ''dependencies'', groups = [(1, ''dependencies'')] \<rparr>"

text \<open>
  A script that declares \<open>foo\<close> as an arrow function whose parameters stand on two
  lines, the remote side that serves it, and the match of the message
  \<open>explain foo do\<close>.
\<close>

definition brokenScript :: string where
  "brokenScript = ''const foo = (a,'' @ [CHR 0x0A] @ ''  b) => a + b;''"

definition brokenEnv :: env where
  "brokenEnv = sampleEnv\<lparr> fetchFileContent := (\<lambda>n u. if u = ''u1'' then Some brokenScript else None) \<rparr>"

definition explainMatch :: matched where
  "explainMatch = \<lparr> whole = ''explain foo do'',
                     groups = [(3, ''do''), (2, ''foo''), (1, ''explain'')] \<rparr>"

section \<open>The context guard\<close>

text \<open>
  C2. While no repository has been analysed (\<open>chatbotRepoData\<close> is \<open>null\<close>), every
  message, \<open>help\<close> included, is answered with the one fixed request to analyse a
  repository first; no intent is tried, and the state, the cache and the record of
  external calls included, is the one before.
\<close>

theorem generateChatbotResponse_no_context:
  "chatbotRepoData st = None \<Longrightarrow>
   generateChatbotResponse E message st = (Inr ''Please analyze a repository first.'', st)"
  by (simp add: generateChatbotResponse_def analyzeFirst_def)

theorem generateChatbotResponse_no_context_witness:
  "chatbotRepoData initial = None \<and>
   generateChatbotResponse sampleEnv ''help'' initial
     = (Inr ''Please analyze a repository first.'', initial)"
proof -
  have h: "chatbotRepoData initial = None" by (simp add: initial_def)
  from generateChatbotResponse_no_context [OF h, of sampleEnv "''help''"] h
  show ?thesis by simp
qed

section \<open>The file locator\<close>

lemma endsWith_iff: "endsWith s t \<longleftrightarrow> (\<exists>pre. s = pre @ t)"
proof
  assume "endsWith s t"
  then have "s = take (length s - length t) s @ t"
    unfolding endsWith_def by (metis append_take_drop_id)
  then show "\<exists>pre. s = pre @ t" ..
next
  assume "\<exists>pre. s = pre @ t"
  then show "endsWith s t" unfolding endsWith_def by auto
qed

lemma nestedPath_endsWith:
  "nestedPath fileName f = endsWith (toLowerCase (path f)) (''/'' @ toLowerCase fileName)"
  by (simp add: nestedPath_def endsWith_iff)

lemma find_firstWith: "List.find P xs = Some x \<longleftrightarrow> firstWith P xs x"
  unfolding firstWith_def find_Some_iff by auto

lemma find_None_set: "List.find P xs = None \<longleftrightarrow> (\<forall>x\<in>set xs. \<not> P x)"
  unfolding find_None_iff by auto

lemma firstWith_member: "firstWith P xs x \<Longrightarrow> \<exists>y\<in>set xs. P y"
  unfolding firstWith_def by (metis nth_mem)

text \<open>
  C4. For every file name and every listing: if some path equals the name up to
  case, the locator returns the first entry with such a path, whatever precedes it;
  otherwise, if some path ends, up to case, with a slash and the name, it returns the
  first entry with such a path; otherwise it returns \<open>null\<close> (\<open>None\<close>). The locator has
  no way to throw.
\<close>

theorem findFileInStructure_first_rule_wins:
  fixes st fileName
  defines "files \<equiv> chatbotRepoStructure st"
  shows "((\<exists>f\<in>set files. exactPath fileName f) \<longrightarrow>
            (\<exists>f. findFileInStructure st fileName = Some f
                 \<and> firstWith (exactPath fileName) files f))
       \<and> (\<not> (\<exists>f\<in>set files. exactPath fileName f) \<and> (\<exists>f\<in>set files. nestedPath fileName f) \<longrightarrow>
            (\<exists>f. findFileInStructure st fileName = Some f
                 \<and> firstWith (nestedPath fileName) files f))
       \<and> (\<not> (\<exists>f\<in>set files. exactPath fileName f) \<and> \<not> (\<exists>f\<in>set files. nestedPath fileName f) \<longrightarrow>
            findFileInStructure st fileName = None)"
proof -
  let ?P = "\<lambda>f. toLowerCase (path f) = toLowerCase fileName"
  let ?Q = "\<lambda>f. endsWith (toLowerCase (path f)) (''/'' @ toLowerCase fileName)"
  have P: "?P = exactPath fileName" by (rule ext) (simp add: exactPath_def)
  have Q: "?Q = nestedPath fileName" by (rule ext) (simp add: nestedPath_endsWith)
  have unfolded: "findFileInStructure st fileName =
      (case List.find (exactPath fileName) files of Some file \<Rightarrow> Some file
       | None \<Rightarrow> List.find (nestedPath fileName) files)"
    unfolding findFileInStructure_def files_def P Q ..
  show ?thesis
  proof (cases "List.find (exactPath fileName) files")
    case (Some f)
    then have first: "firstWith (exactPath fileName) files f" by (simp add: find_firstWith)
    from firstWith_member [OF first] first Some unfolded show ?thesis by simp
  next
    case None
    then have no: "\<not> (\<exists>f\<in>set files. exactPath fileName f)" by (simp add: find_None_set)
    from None unfolded
    have second: "findFileInStructure st fileName = List.find (nestedPath fileName) files"
      by simp
    show ?thesis
    proof (cases "List.find (nestedPath fileName) files")
      case (Some f)
      then have first: "firstWith (nestedPath fileName) files f" by (simp add: find_firstWith)
      from firstWith_member [OF first] first Some no second show ?thesis by simp
    next
      case None
      then have none: "\<not> (\<exists>f\<in>set files. nestedPath fileName f)" by (simp add: find_None_set)
      from None second have "findFileInStructure st fileName = None" by simp
      with no none show ?thesis by blast
    qed
  qed
qed

text \<open>
  In the sample listing \<open>PACKAGE.JSON\<close> names the top-level manifest although the
  nested one comes first, \<open>APP.JS\<close> names the script under \<open>src\<close>, and \<open>missing.txt\<close>
  names nothing.
\<close>

theorem findFileInStructure_first_rule_wins_witness:
  "(\<exists>f\<in>set (chatbotRepoStructure sampleState). exactPath ''PACKAGE.JSON'' f)
   \<and> (\<exists>f. findFileInStructure sampleState ''PACKAGE.JSON'' = Some f
          \<and> firstWith (exactPath ''PACKAGE.JSON'') (chatbotRepoStructure sampleState) f
          \<and> path f = ''package.json'')
   \<and> \<not> (\<exists>f\<in>set (chatbotRepoStructure sampleState). exactPath ''APP.JS'' f)
   \<and> (\<exists>f\<in>set (chatbotRepoStructure sampleState). nestedPath ''APP.JS'' f)
   \<and> (\<exists>f. findFileInStructure sampleState ''APP.JS'' = Some f
          \<and> firstWith (nestedPath ''APP.JS'') (chatbotRepoStructure sampleState) f
          \<and> path f = ''src/app.js'')
   \<and> \<not> (\<exists>f\<in>set (chatbotRepoStructure sampleState). exactPath ''missing.txt'' f)
   \<and> \<not> (\<exists>f\<in>set (chatbotRepoStructure sampleState). nestedPath ''missing.txt'' f)
   \<and> findFileInStructure sampleState ''missing.txt'' = None"
proof -
  let ?files = "chatbotRepoStructure sampleState"
  have e1: "\<exists>f\<in>set ?files. exactPath ''PACKAGE.JSON'' f" by code_simp
  have e2: "\<not> (\<exists>f\<in>set ?files. exactPath ''APP.JS'' f)" by code_simp
  have n2: "\<exists>f\<in>set ?files. nestedPath ''APP.JS'' f"
    unfolding nestedPath_endsWith by code_simp
  have e3: "\<not> (\<exists>f\<in>set ?files. exactPath ''missing.txt'' f)" by code_simp
  have n3: "\<not> (\<exists>f\<in>set ?files. nestedPath ''missing.txt'' f)"
    unfolding nestedPath_endsWith by code_simp
  have p1: "map_option path (findFileInStructure sampleState ''PACKAGE.JSON'') = Some ''package.json''"
    by code_simp
  have p2: "map_option path (findFileInStructure sampleState ''APP.JS'') = Some ''src/app.js''"
    by code_simp
  from findFileInStructure_first_rule_wins [of sampleState "''PACKAGE.JSON''"] e1 p1
  have r1: "\<exists>f. findFileInStructure sampleState ''PACKAGE.JSON'' = Some f
          \<and> firstWith (exactPath ''PACKAGE.JSON'') ?files f \<and> path f = ''package.json''"
    by auto
  from findFileInStructure_first_rule_wins [of sampleState "''APP.JS''"] e2 n2 p2
  have r2: "\<exists>f. findFileInStructure sampleState ''APP.JS'' = Some f
          \<and> firstWith (nestedPath ''APP.JS'') ?files f \<and> path f = ''src/app.js''"
    by auto
  from findFileInStructure_first_rule_wins [of sampleState "''missing.txt''"] e3 n3
  have r3: "findFileInStructure sampleState ''missing.txt'' = None" by blast
  from e1 r1 e2 n2 r2 e3 n3 r3 show ?thesis by blast
qed

section \<open>The content cache\<close>












text \<open>
  C6. When the cache has no entry for a locator and the external fetch of it is
  rejected, \<open>getFileContent\<close> throws the fetch error and stores nothing: the cache is
  the one before. The next call with the same locator therefore goes to the external
  fetch again, and its outcome is whatever that second fetch yields.
\<close>

theorem getFileContent_failure_not_cached:
  assumes miss: "fileContentCache st u = None"
      and fails: "fetchFileContent E (length (fetched st)) u = None"
  shows "\<exists>st'. getFileContent E u st = (Inl FetchError, st')
           \<and> fileContentCache st' = fileContentCache st
           \<and> fetched st' = fetched st @ [u]
           \<and> fst (getFileContent E u st') =
               (case fetchFileContent E (Suc (length (fetched st))) u of
                  None \<Rightarrow> Inl FetchError | Some content \<Rightarrow> Inr content)
           \<and> fetched (snd (getFileContent E u st')) = fetched st @ [u, u]"
  using assms by (auto simp: getFileContent_def split: option.splits)

theorem getFileContent_failure_not_cached_witness:
  "fileContentCache sampleState ''u0'' = None
   \<and> fetchFileContent sampleEnv (length (fetched sampleState)) ''u0'' = None
   \<and> (\<exists>st'. getFileContent sampleEnv ''u0'' sampleState = (Inl FetchError, st')
           \<and> fileContentCache st' = fileContentCache sampleState
           \<and> fetched st' = fetched sampleState @ [''u0'']
           \<and> fetched (snd (getFileContent sampleEnv ''u0'' st')) = fetched sampleState @ [''u0'', ''u0''])"
proof -
  have miss: "fileContentCache sampleState ''u0'' = None" by code_simp
  have fails: "fetchFileContent sampleEnv (length (fetched sampleState)) ''u0'' = None"
    by code_simp
  from getFileContent_failure_not_cached [OF miss fails] miss fails
  show ?thesis by blast
qed

section \<open>Intent recognition\<close>

lemma firstMatch_index:
  "k < length ps \<Longrightarrow> match message (ps ! k) = Some m
   \<Longrightarrow> \<forall>k'<k. match message (ps ! k') = None \<Longrightarrow> firstMatch ps message = Some m"
proof (induction ps arbitrary: k)
  case Nil
  then show ?case by simp
next
  case (Cons p ps)
  show ?case
  proof (cases k)
    case 0
    with Cons.prems show ?thesis by simp
  next
    case (Suc k0)
    from Cons.prems(3) Suc have p: "match message p = None" by auto
    have "\<forall>k'<k0. match message (ps ! k') = None"
    proof (intro allI impI)
      fix k' assume "k' < k0"
      with Cons.prems(3) [rule_format, of "Suc k'"] Suc show "match message (ps ! k') = None"
        by simp
    qed
    with Cons.IH [of k0] Cons.prems Suc have "firstMatch ps message = Some m" by simp
    with p show ?thesis by simp
  qed
qed

lemma firstMatch_none:
  "\<forall>p\<in>set ps. match message p = None \<Longrightarrow> firstMatch ps message = None"
  by (induction ps) auto

lemma respond_index:
  "i < length tbl \<Longrightarrow> firstMatch (patterns (tbl ! i)) message = Some m
   \<Longrightarrow> \<forall>j<i. firstMatch (patterns (tbl ! j)) message = None
   \<Longrightarrow> respond tbl E message st = handler (tbl ! i) m message E st"
proof (induction tbl arbitrary: i)
  case Nil
  then show ?case by simp
next
  case (Cons r tbl)
  show ?case
  proof (cases i)
    case 0
    with Cons.prems show ?thesis by simp
  next
    case (Suc i0)
    from Cons.prems(3) Suc have r: "firstMatch (patterns r) message = None" by auto
    have "\<forall>j<i0. firstMatch (patterns (tbl ! j)) message = None"
    proof (intro allI impI)
      fix j assume "j < i0"
      with Cons.prems(3) [rule_format, of "Suc j"] Suc
      show "firstMatch (patterns (tbl ! j)) message = None" by simp
    qed
    with Cons.IH [of i0] Cons.prems Suc
    have "respond tbl E message st = handler (tbl ! i0) m message E st" by simp
    with r Suc show ?thesis by simp
  qed
qed

text \<open>
  C3. With a repository analysed, let rule \<open>i\<close> of the intent table be the first rule
  with a pattern that matches the message, and pattern \<open>k\<close> the first of its patterns
  that does. Then the answer is the one the handler of rule \<open>i\<close> gives for the match of
  pattern \<open>k\<close>, whichever later rules match as well. The rules stand in the order
  greet, about, find_file, list_dependencies, explain_code, get_metadata, help.
\<close>

theorem generateChatbotResponse_first_match_wins:
  assumes ctx: "chatbotRepoData st \<noteq> None"
      and i: "i < length intents"
      and k: "k < length (patterns (intents ! i))"
      and hit: "match message (patterns (intents ! i) ! k) = Some m"
      and earlier_patterns: "\<forall>k'<k. match message (patterns (intents ! i) ! k') = None"
      and earlier_rules: "\<forall>j<i. \<forall>p\<in>set (patterns (intents ! j)). match message p = None"
  shows "generateChatbotResponse E message st = handler (intents ! i) m message E st
       \<and> map intent_name intents =
           [''greet'', ''about'', ''find_file'', ''list_dependencies'', ''explain_code'',
            ''get_metadata'', ''help'']"
proof -
  from firstMatch_index [OF k hit earlier_patterns]
  have here: "firstMatch (patterns (intents ! i)) message = Some m" .
  from earlier_rules have before: "\<forall>j<i. firstMatch (patterns (intents ! j)) message = None"
    by (simp add: firstMatch_none)
  from ctx respond_index [OF i here before]
  have "generateChatbotResponse E message st = handler (intents ! i) m message E st"
    by (auto simp: generateChatbotResponse_def)
  moreover have "map intent_name intents =
      [''greet'', ''about'', ''find_file'', ''list_dependencies'', ''explain_code'',
       ''get_metadata'', ''help'']"
    by (simp add: intents_def)
  ultimately show ?thesis ..
qed

text \<open>
  \<open>about the owner\<close> matches the pattern of about and that of get_metadata; the
  answer is the one of about, the earlier rule.
\<close>

theorem generateChatbotResponse_first_match_wins_witness:
  "match ''about the owner'' (patterns (intents ! 5) ! 0) \<noteq> None
   \<and> match ''about the owner'' (patterns (intents ! 1) ! 0)
       = Some \<lparr> whole = ''about'', groups = [(1, ''about'')] \<rparr>
   \<and> generateChatbotResponse sampleEnv ''about the owner'' sampleState
       = handleAbout \<lparr> whole = ''about'', groups = [(1, ''about'')] \<rparr> ''about the owner''
           sampleEnv sampleState"
proof -
  let ?msg = "''about the owner''"
  let ?m = "\<lparr> whole = ''about'', groups = [(1, ''about'')] \<rparr>"
  have ctx: "chatbotRepoData sampleState \<noteq> None" by code_simp
  have i: "1 < length intents" by (simp add: intents_def)
  have k: "0 < length (patterns (intents ! 1))" by (simp add: intents_def)
  have later: "match ?msg (patterns (intents ! 5) ! 0) \<noteq> None" by code_simp
  have hit: "match ?msg (patterns (intents ! 1) ! 0) = Some ?m" by code_simp
  have ep: "\<forall>k'<0. match ?msg (patterns (intents ! 1) ! k') = None" by simp
  have "\<forall>p\<in>set (patterns (intents ! 0)). match ?msg p = None" by code_simp
  then have er: "\<forall>j<1. \<forall>p\<in>set (patterns (intents ! j)). match ?msg p = None" by simp
  have h: "handler (intents ! 1) = handleAbout" by (simp add: intents_def)
  from generateChatbotResponse_first_match_wins [OF ctx i k hit ep er, of sampleEnv] later hit h
  show ?thesis by simp
qed

section \<open>Repository metadata\<close>

lemma toLowerChar_of_upper_eq:
  assumes k: "lowerAscii k" and eq: "toUpperChar x = toUpperChar k"
  shows "toLowerChar x = k"
proof -
  define n where "n = (of_char x :: nat)"
  define j where "j = (of_char k :: nat)"
  have j: "97 \<le> j" "j \<le> 122" using k by (simp_all add: lowerAscii_def j_def)
  have n: "n < 256" by (simp add: n_def)
  have uk: "(of_char (toUpperChar k) :: nat) = j - 32"
    using j by (simp add: toUpperChar_def j_def [symmetric])
  have ux: "(of_char (toUpperChar x) :: nat) =
      (if (97 \<le> n \<and> n \<le> 122) \<or> (224 \<le> n \<and> n \<le> 254 \<and> n \<noteq> 247) then n - 32 else n)"
    using n by (simp add: toUpperChar_def n_def [symmetric])
  from eq uk ux have c: "(if (97 \<le> n \<and> n \<le> 122) \<or> (224 \<le> n \<and> n \<le> 254 \<and> n \<noteq> 247) then n - 32 else n) = j - 32"
    by simp
  have "(of_char (toLowerChar x) :: nat) = j"
  proof (cases "(97 \<le> n \<and> n \<le> 122) \<or> (224 \<le> n \<and> n \<le> 254 \<and> n \<noteq> 247)")
    case True
    with c j have "n = j" by (auto split: if_splits)
    with j show ?thesis by (simp add: toLowerChar_def n_def [symmetric])
  next
    case False
    with c have "n = j - 32" by simp
    with j have "65 \<le> n" "n \<le> 90" "(n + 32) mod 256 = j" by auto
    then show ?thesis by (simp add: toLowerChar_def Let_def n_def [symmetric])
  qed
  then show ?thesis unfolding j_def by simp
qed

lemma toLowerCase_of_upper_eq:
  "list_all lowerAscii w \<Longrightarrow> map toUpperChar u = map toUpperChar w \<Longrightarrow> map toLowerChar u = w"
proof (induction w arbitrary: u)
  case Nil
  then show ?case by simp
next
  case (Cons k w)
  then obtain x u' where u: "u = x # u'" by (cases u) auto
  with Cons show ?case by (simp add: toLowerChar_of_upper_eq)
qed

lemma includes_str_iff: "includes_str s w \<longleftrightarrow> (\<exists>pre post. s = pre @ w @ post)"
proof (induction s)
  case Nil
  then show ?case by simp
next
  case (Cons c s)
  have sw: "startsWith (c # s) w \<longleftrightarrow> (\<exists>post. c # s = w @ post)"
    unfolding startsWith_def
    by (metis append_eq_conv_conj append_take_drop_id length_append le_add1)
  show ?case
  proof
    assume "includes_str (c # s) w"
    then consider "startsWith (c # s) w" | "includes_str s w" by auto
    then show "\<exists>pre post. c # s = pre @ w @ post"
    proof cases
      case 1
      with sw obtain post where "c # s = [] @ w @ post" by auto
      then show ?thesis by blast
    next
      case 2
      with Cons.IH obtain pre post where "s = pre @ w @ post" by auto
      then have "c # s = (c # pre) @ w @ post" by simp
      then show ?thesis by blast
    qed
  next
    assume "\<exists>pre post. c # s = pre @ w @ post"
    then obtain pre post where e: "c # s = pre @ w @ post" by auto
    show "includes_str (c # s) w"
    proof (cases pre)
      case Nil
      with e have "c # s = w @ post" by simp
      with sw have "startsWith (c # s) w" by blast
      then show ?thesis by simp
    next
      case (Cons a pre')
      with e have "s = pre' @ w @ post" by simp
      with Cons.IH show ?thesis by auto
    qed
  qed
qed

lemma exec_from_Some:
  "exec_from R n s = Some m \<Longrightarrow> \<exists>pre t. s = pre @ t \<and> run R n (source R) t [] \<noteq> []"
proof (induction s)
  case Nil
  then show ?case by (auto split: list.splits)
next
  case (Cons x s)
  show ?case
  proof (cases "run R n (source R) (x # s) []")
    case Nil
    with Cons.prems have "exec_from R n s = Some m" by simp
    with Cons.IH obtain pre t where "s = pre @ t" "run R n (source R) t [] \<noteq> []" by auto
    then have "x # s = (x # pre) @ t \<and> run R n (source R) t [] \<noteq> []" by simp
    then show ?thesis by blast
  next
    case (Cons a list)
    then have "x # s = [] @ (x # s) \<and> run R n (source R) (x # s) [] \<noteq> []" by simp
    then show ?thesis by blast
  qed
qed

lemma run_Lit_ci:
  assumes "run (ci r) n (Lit w) t c \<noteq> []" and "list_all lowerAscii w"
  shows "\<exists>post. toLowerCase t = w @ post"
proof -
  from assms(1) have len: "length w \<le> length t"
    and eq: "map toUpperChar (take (length w) t) = map toUpperChar w"
    by (auto simp: ci_def canonicalize_def [abs_def] split: if_splits)
  from toLowerCase_of_upper_eq [OF assms(2) eq] have "map toLowerChar (take (length w) t) = w" .
  then have "toLowerCase t = w @ map toLowerChar (drop (length w) t)"
    unfolding toLowerCase_def by (metis append_take_drop_id map_append)
  then show ?thesis ..
qed

lemma includes_str_lower:
  assumes "message = pre @ t" and "toLowerCase t = w @ post"
  shows "includes_str (toLowerCase message) w"
proof -
  have "toLowerCase message = toLowerCase pre @ w @ post"
    using assms by (simp add: toLowerCase_def)
  then show ?thesis unfolding includes_str_iff by blast
qed

lemma metadata_pattern_keyword:
  assumes "match message (ci (Group 1 (alts [Lit ''owner'', Lit ''author'', Lit ''stars'', Lit ''forks'',
                                        Lit ''license'']))) = Some m"
  shows "includes_str (toLowerCase message) ''owner'' \<or> includes_str (toLowerCase message) ''author''
       \<or> includes_str (toLowerCase message) ''stars'' \<or> includes_str (toLowerCase message) ''forks''
       \<or> includes_str (toLowerCase message) ''license''"
proof -
  let ?R = "ci (Group 1 (alts [Lit ''owner'', Lit ''author'', Lit ''stars'', Lit ''forks'', Lit ''license'']))"
  from assms obtain pre t where s: "message = pre @ t" and r: "run ?R (length message) (source ?R) t [] \<noteq> []"
    unfolding match_def using exec_from_Some by blast
  have src: "source ?R = Group 1 (alts [Lit ''owner'', Lit ''author'', Lit ''stars'', Lit ''forks'', Lit ''license''])"
    by (simp add: ci_def)
  from r have "run ?R (length message) (Lit ''owner'') t [] \<noteq> []
     \<or> run ?R (length message) (Lit ''author'') t [] \<noteq> []
     \<or> run ?R (length message) (Lit ''stars'') t [] \<noteq> []
     \<or> run ?R (length message) (Lit ''forks'') t [] \<noteq> []
     \<or> run ?R (length message) (Lit ''license'') t [] \<noteq> []"
    unfolding src by (simp del: run.simps(1))
  moreover have "list_all lowerAscii ''owner''" "list_all lowerAscii ''author''"
    "list_all lowerAscii ''stars''" "list_all lowerAscii ''forks''" "list_all lowerAscii ''license''"
    by (simp_all add: lowerAscii_def)
  ultimately show ?thesis
    using run_Lit_ci includes_str_lower [OF s] by metis
qed


lemma metadata_intent:
  assumes "i \<in> set intents" and "intent_name i = ''get_metadata''"
  shows "handler i = handleGetMetadata
     \<and> patterns i = [ci (Group 1 (alts [Lit ''owner'', Lit ''author'', Lit ''stars'',
                                          Lit ''forks'', Lit ''license'']))]"
  using assms by (auto simp: intents_def)

lemma metadata_texts:
  "ownerText d \<noteq> metadataNotFound" "starsText d \<noteq> metadataNotFound"
  "forksText d \<noteq> metadataNotFound" "licenseText d \<noteq> metadataNotFound"
  by (simp_all add: ownerText_def starsText_def forksText_def licenseText_def metadataNotFound_def)

text \<open>
  C10. When the pattern of the get_metadata rule matches the message, the handler of
  that rule answers with the owner if the lower-cased message contains \<open>owner\<close> or
  \<open>author\<close>, else with the stars if it contains \<open>stars\<close>, else with the forks if it
  contains \<open>forks\<close>, and else with the license, which it then contains. The closing
  answer of the handler, that the piece of information was not found, is never given.
\<close>

theorem handleGetMetadata_never_falls_through:
  assumes rule: "i \<in> set intents" "intent_name i = ''get_metadata''"
      and trigger: "p \<in> set (patterns i)" "match message p = Some m"
      and ctx: "chatbotRepoData st = Some d"
  shows "handler i m message E st =
           (Inr (if includes_str (toLowerCase message) ''owner''
                    \<or> includes_str (toLowerCase message) ''author'' then ownerText d
                 else if includes_str (toLowerCase message) ''stars'' then starsText d
                 else if includes_str (toLowerCase message) ''forks'' then forksText d
                 else licenseText d), st)
       \<and> fst (handler i m message E st) \<noteq> Inr metadataNotFound"
proof -
  from metadata_intent [OF rule] trigger
  have h: "handler i = handleGetMetadata"
    and t: "match message (ci (Group 1 (alts [Lit ''owner'', Lit ''author'', Lit ''stars'',
                                          Lit ''forks'', Lit ''license'']))) = Some m"
    by auto
  from metadata_pattern_keyword [OF t]
  have kw: "includes_str (toLowerCase message) ''owner'' \<or> includes_str (toLowerCase message) ''author''
       \<or> includes_str (toLowerCase message) ''stars'' \<or> includes_str (toLowerCase message) ''forks''
       \<or> includes_str (toLowerCase message) ''license''" .
  have eq: "handleGetMetadata m message E st =
           (Inr (if includes_str (toLowerCase message) ''owner''
                    \<or> includes_str (toLowerCase message) ''author'' then ownerText d
                 else if includes_str (toLowerCase message) ''stars'' then starsText d
                 else if includes_str (toLowerCase message) ''forks'' then forksText d
                 else licenseText d), st)"
    using kw ctx by (auto simp: handleGetMetadata_def Let_def withRepoData_def)
  then show ?thesis unfolding h by (simp add: metadata_texts)
qed

theorem handleGetMetadata_never_falls_through_witness:
  "match ''How many STARS?'' (patterns (intents ! 5) ! 0)
       = Some \<lparr> whole = ''STARS'', groups = [(1, ''STARS'')] \<rparr>
   \<and> handler (intents ! 5) \<lparr> whole = ''STARS'', groups = [(1, ''STARS'')] \<rparr> ''How many STARS?''
        sampleEnv sampleState = (Inr ''It has **12** stars.'', sampleState)"
proof -
  let ?msg = "''How many STARS?''"
  let ?m = "\<lparr> whole = ''STARS'', groups = [(1, ''STARS'')] \<rparr>"
  have r1: "intents ! 5 \<in> set intents" by (simp add: intents_def)
  have r2: "intent_name (intents ! 5) = ''get_metadata''" by (simp add: intents_def)
  have t1: "patterns (intents ! 5) ! 0 \<in> set (patterns (intents ! 5))" by (simp add: intents_def)
  have t2: "match ?msg (patterns (intents ! 5) ! 0) = Some ?m" by code_simp
  have ctx: "chatbotRepoData sampleState = Some sampleData" by code_simp
  have answer: "(if includes_str (toLowerCase ?msg) ''owner''
                    \<or> includes_str (toLowerCase ?msg) ''author'' then ownerText sampleData
                 else if includes_str (toLowerCase ?msg) ''stars'' then starsText sampleData
                 else if includes_str (toLowerCase ?msg) ''forks'' then forksText sampleData
                 else licenseText sampleData) = ''It has **12** stars.''"
    by code_simp
  from handleGetMetadata_never_falls_through [OF r1 r2 t1 t2 ctx, of sampleEnv] t2 answer
  show ?thesis by simp
qed

section \<open>The dependency manifest\<close>

lemma printed_dependencyList:
  "dependencyList ps = map_option dependencyListing (printed ps)"
proof (cases "printed ps")
  case None
  then have "sequence (map dependencyItem ps) = None"
  proof (induction ps)
    case Nil
    then show ?case by (simp add: printed_def)
  next
    case (Cons p ps)
    then show ?case
      by (cases "toString (snd p)")
         (auto simp: printed_def dependencyItem_def split: option.splits)
  qed
  with None show ?thesis by (simp add: dependencyList_def)
next
  case (Some entries)
  then have "sequence (map dependencyItem ps)
      = Some (map (\<lambda>e. ''<li><strong>'' @ fst e @ ''</strong>: '' @ snd e @ ''</li>'') entries)"
  proof (induction ps arbitrary: entries)
    case Nil
    then show ?case by (auto simp: printed_def)
  next
    case (Cons p ps)
    then show ?case
      by (cases "toString (snd p)")
         (auto simp: printed_def dependencyItem_def split: option.splits)
  qed
  with Some show ?thesis by (simp add: dependencyList_def dependencyListing_def)
qed

lemma handleListDependencies_unfold:
  assumes "findFileInStructure st ''package.json'' = Some f"
  shows "fst (handleListDependencies m message E st) =
     (case fst (getFileContent E (url f) st) of
        Inl e \<Rightarrow> Inr unreadableManifest
      | Inr content \<Rightarrow>
          (case readDependencies E content of
             Inl e \<Rightarrow> Inr unreadableManifest | Inr response \<Rightarrow> Inr response))"
  using assms
  by (cases "getFileContent E (url f) st")
     (auto simp: handleListDependencies_def split: sum.splits)

lemma readDependencies_sections:
  assumes "JSON_parse E content = Some data"
      and "getProperty data ''dependencies'' = Inr deps"
      and "getProperty data ''devDependencies'' = Inr devDeps"
  shows "readDependencies E content =
     (if spread deps devDeps = [] then Inr noDependencies
      else (case printed (spread deps devDeps) of
              None \<Rightarrow> Inl TypeError
            | Some entries \<Rightarrow> Inr (dependencyListing entries)))"
  using assms
  by (auto simp: readDependencies_def Let_def printed_dependencyList split: option.splits)

lemma getProperty_JNull: "getProperty JNull k = Inl TypeError"
  by simp

lemma listing_texts:
  "noManifest \<noteq> unreadableManifest" "noManifest \<noteq> noDependencies"
  "unreadableManifest \<noteq> noDependencies"
  "dependencyListing entries \<noteq> noManifest" "dependencyListing entries \<noteq> unreadableManifest"
  "dependencyListing entries \<noteq> noDependencies"
  by (simp_all add: noManifest_def unreadableManifest_def noDependencies_def dependencyListing_def)

lemma handleListDependencies_text:
  assumes "manifestText E st content"
  shows "fst (handleListDependencies m message E st) =
     (case readDependencies E content of
        Inl e \<Rightarrow> Inr unreadableManifest | Inr response \<Rightarrow> Inr response)"
  using assms by (auto simp: manifestText_def handleListDependencies_unfold)

lemma handleListDependencies_sections:
  assumes "manifestSections E st deps devDeps"
  shows "fst (handleListDependencies m message E st) =
     (if spread deps devDeps = [] then Inr noDependencies
      else (case printed (spread deps devDeps) of
              None \<Rightarrow> Inr unreadableManifest
            | Some entries \<Rightarrow> Inr (dependencyListing entries)))"
proof -
  from assms obtain content data where c: "manifestText E st content"
    and p: "JSON_parse E content = Some data"
    and d: "getProperty data ''dependencies'' = Inr deps"
    and v: "getProperty data ''devDependencies'' = Inr devDeps"
    unfolding manifestSections_def by blast
  from handleListDependencies_text [OF c] readDependencies_sections [OF p d v] show ?thesis
    by (auto split: option.splits)
qed

text \<open>
  C7, as the code has it. The handler of list_dependencies always answers with a
  text, one of four kinds that differ from each other:
  \<^item> no \<open>package.json\<close> is located: the fixed no-manifest answer;
  \<^item> it is located but cannot be read, because its fetch is rejected, its text does
    not parse, the parsed value is \<open>null\<close>, or a version has no text form: the
    found-but-unreadable answer;
  \<^item> it parses and the merge of its two sections is empty: the no-dependencies
    answer;
  \<^item> otherwise the listing of every name of the merge with its version.
\<close>

theorem handleListDependencies_outcomes:
  fixes m message E st
  defines "answer \<equiv> fst (handleListDependencies m message E st)"
  shows "(findFileInStructure st ''package.json'' = None \<longrightarrow> answer = Inr noManifest)
       \<and> (\<forall>f e. findFileInStructure st ''package.json'' = Some f
              \<and> fst (getFileContent E (url f) st) = Inl e \<longrightarrow> answer = Inr unreadableManifest)
       \<and> (\<forall>content. manifestText E st content \<and> JSON_parse E content = None
              \<longrightarrow> answer = Inr unreadableManifest)
       \<and> (\<forall>content. manifestText E st content \<and> JSON_parse E content = Some JNull
              \<longrightarrow> answer = Inr unreadableManifest)
       \<and> (\<forall>deps devDeps. manifestSections E st deps devDeps \<and> spread deps devDeps = []
              \<longrightarrow> answer = Inr noDependencies)
       \<and> (\<forall>deps devDeps entries. manifestSections E st deps devDeps
              \<and> spread deps devDeps \<noteq> [] \<and> printed (spread deps devDeps) = Some entries
              \<longrightarrow> answer = Inr (dependencyListing entries))
       \<and> (\<forall>deps devDeps. manifestSections E st deps devDeps
              \<and> spread deps devDeps \<noteq> [] \<and> printed (spread deps devDeps) = None
              \<longrightarrow> answer = Inr unreadableManifest)
       \<and> distinct [noManifest, unreadableManifest, noDependencies]
       \<and> (\<forall>entries. dependencyListing entries \<notin> {noManifest, unreadableManifest, noDependencies})"
proof -
  have none: "findFileInStructure st ''package.json'' = None \<Longrightarrow> answer = Inr noManifest"
    by (simp add: answer_def handleListDependencies_def)
  have rejected: "answer = Inr unreadableManifest"
    if "findFileInStructure st ''package.json'' = Some f"
      and "fst (getFileContent E (url f) st) = Inl e" for f e
    using that by (simp add: answer_def handleListDependencies_unfold)
  have body: "answer = (case readDependencies E content of
             Inl e \<Rightarrow> Inr unreadableManifest | Inr response \<Rightarrow> Inr response)"
    if "manifestText E st content" for content
    using that by (simp add: answer_def handleListDependencies_text)
  have noparse: "answer = Inr unreadableManifest"
    if "manifestText E st content" and "JSON_parse E content = None" for content
    using that body by (simp add: readDependencies_def)
  have null: "answer = Inr unreadableManifest"
    if "manifestText E st content" and "JSON_parse E content = Some JNull" for content
    using that body by (simp add: readDependencies_def)
  have sections: "answer = (if spread deps devDeps = [] then Inr noDependencies
      else (case printed (spread deps devDeps) of
              None \<Rightarrow> Inr unreadableManifest
            | Some entries \<Rightarrow> Inr (dependencyListing entries)))"
    if "manifestSections E st deps devDeps" for deps devDeps
    using that by (simp add: answer_def handleListDependencies_sections)
  have c1: "findFileInStructure st ''package.json'' = None \<longrightarrow> answer = Inr noManifest"
    using none by blast
  have c2: "\<forall>f e. findFileInStructure st ''package.json'' = Some f
              \<and> fst (getFileContent E (url f) st) = Inl e \<longrightarrow> answer = Inr unreadableManifest"
    using rejected by blast
  have c3: "\<forall>content. manifestText E st content \<and> JSON_parse E content = None
              \<longrightarrow> answer = Inr unreadableManifest"
    using noparse by blast
  have c4: "\<forall>content. manifestText E st content \<and> JSON_parse E content = Some JNull
              \<longrightarrow> answer = Inr unreadableManifest"
    using null by blast
  have c5: "\<forall>deps devDeps. manifestSections E st deps devDeps \<and> spread deps devDeps = []
              \<longrightarrow> answer = Inr noDependencies"
  proof (intro allI impI)
    fix deps devDeps
    assume "manifestSections E st deps devDeps \<and> spread deps devDeps = []"
    with sections [of deps devDeps] show "answer = Inr noDependencies" by simp
  qed
  have c6: "\<forall>deps devDeps entries. manifestSections E st deps devDeps
              \<and> spread deps devDeps \<noteq> [] \<and> printed (spread deps devDeps) = Some entries
              \<longrightarrow> answer = Inr (dependencyListing entries)"
  proof (intro allI impI)
    fix deps devDeps entries
    assume "manifestSections E st deps devDeps
              \<and> spread deps devDeps \<noteq> [] \<and> printed (spread deps devDeps) = Some entries"
    with sections [of deps devDeps] show "answer = Inr (dependencyListing entries)" by simp
  qed
  have c7: "\<forall>deps devDeps. manifestSections E st deps devDeps
              \<and> spread deps devDeps \<noteq> [] \<and> printed (spread deps devDeps) = None
              \<longrightarrow> answer = Inr unreadableManifest"
  proof (intro allI impI)
    fix deps devDeps
    assume "manifestSections E st deps devDeps
              \<and> spread deps devDeps \<noteq> [] \<and> printed (spread deps devDeps) = None"
    with sections [of deps devDeps] show "answer = Inr unreadableManifest" by simp
  qed
  have c8: "distinct [noManifest, unreadableManifest, noDependencies]"
    by (simp add: listing_texts)
  have c9: "\<forall>entries. dependencyListing entries \<notin> {noManifest, unreadableManifest, noDependencies}"
    by (simp add: listing_texts)
  from c1 c2 c3 c4 c5 c6 c7 c8 c9 show ?thesis by (intro conjI)
qed



text \<open>
  The sample manifest lists \<open>left-pad\<close> at \<open>^1.0.0\<close> and nothing else; a repository
  with no file has no manifest.
\<close>

theorem handleListDependencies_outcomes_witness:
  "manifestSections sampleEnv sampleState
      (Some (JObject [(''left-pad'', JString ''^1.0.0'')])) None
   \<and> spread (Some (JObject [(''left-pad'', JString ''^1.0.0'')])) None \<noteq> []
   \<and> printed (spread (Some (JObject [(''left-pad'', JString ''^1.0.0'')])) None)
       = Some [(''left-pad'', ''^1.0.0'')]
   \<and> fst (handleListDependencies dependenciesMatch ''what are the dependencies?'' sampleEnv sampleState)
       = Inr (dependencyListing [(''left-pad'', ''^1.0.0'')])
   \<and> findFileInStructure (initChatbot sampleData [] [] initial) ''package.json'' = None
   \<and> fst (handleListDependencies dependenciesMatch ''what are the dependencies?'' sampleEnv
            (initChatbot sampleData [] [] initial)) = Inr noManifest"
proof -
  let ?deps = "Some (JObject [(''left-pad'', JString ''^1.0.0'')])"
  let ?f = "\<lparr> path = ''package.json'', url = ''u2'' \<rparr>"
  have loc: "findFileInStructure sampleState ''package.json'' = Some ?f" by code_simp
  have got: "fst (getFileContent sampleEnv (url ?f) sampleState) = Inr sampleManifest" by code_simp
  have parsed: "JSON_parse sampleEnv sampleManifest
      = Some (JObject [(''dependencies'', JObject [(''left-pad'', JString ''^1.0.0'')])])"
    by code_simp
  have d: "getProperty (JObject [(''dependencies'', JObject [(''left-pad'', JString ''^1.0.0'')])])
      ''dependencies'' = Inr ?deps" by simp
  have v: "getProperty (JObject [(''dependencies'', JObject [(''left-pad'', JString ''^1.0.0'')])])
      ''devDependencies'' = Inr None" by simp
  from loc got have "manifestText sampleEnv sampleState sampleManifest"
    unfolding manifestText_def by blast
  with parsed d v have sec: "manifestSections sampleEnv sampleState ?deps None"
    unfolding manifestSections_def by blast
  have some: "spread ?deps None \<noteq> []" by code_simp
  have pr: "printed (spread ?deps None) = Some [(''left-pad'', ''^1.0.0'')]" by code_simp
  have none: "findFileInStructure (initChatbot sampleData [] [] initial) ''package.json'' = None"
    by code_simp
  note all = handleListDependencies_outcomes
    [of sampleState dependenciesMatch "''what are the dependencies?''" sampleEnv]
  note listing = all [THEN conjunct2, THEN conjunct2, THEN conjunct2, THEN conjunct2,
    THEN conjunct2, THEN conjunct1, rule_format, of ?deps None "[(''left-pad'', ''^1.0.0'')]"]
  note missing = handleListDependencies_outcomes
    [of "initChatbot sampleData [] [] initial" dependenciesMatch "''what are the dependencies?''"
      sampleEnv, THEN conjunct1, rule_format, OF none]
  from listing sec some pr none missing show ?thesis by simp
qed

text \<open>
  A manifest whose text is \<open>null\<close> parses, and the answer is that the manifest could
  not be read: neither that it lists no dependencies nor a listing.
\<close>

theorem handleListDependencies_null_manifest:
  "findFileInStructure sampleState ''package.json''
       = Some \<lparr> path = ''package.json'', url = ''u2'' \<rparr>
   \<and> fst (getFileContent nullManifestEnv ''u2'' sampleState) = Inr ''null''
   \<and> JSON_parse nullManifestEnv ''null'' = Some JNull
   \<and> fst (handleListDependencies dependenciesMatch ''what are the dependencies?''
            nullManifestEnv sampleState) = Inr unreadableManifest
   \<and> unreadableManifest \<noteq> noDependencies
   \<and> \<not> startsWith unreadableManifest ''Here are the dependencies''"
  by code_simp

section \<open>Fetch failures in handlers\<close>

text \<open>
  C1. With every fetch rejected, the message \<open>explain foo do\<close> reaches the handler of
  explain_code, whose first fetch fails: the response generator throws the fetch
  error and returns no text. The handler of list_dependencies, asked \<open>libs\<close> in the
  same session, catches the same failure and answers.
\<close>

theorem handleExplainCode_propagates_fetch_failure:
  "fst (generateChatbotResponse offlineEnv ''explain foo do'' sampleState) = Inl FetchError
   \<and> fst (generateChatbotResponse offlineEnv ''libs'' sampleState) = Inr unreadableManifest"
  by code_simp


section \<open>Merging the two sections of the manifest\<close>

lemma defineProperty_present:
  "fst p \<in> fst ` set ps \<Longrightarrow>
   defineProperty ps p = map (\<lambda>q. if fst q = fst p then p else q) ps"
  by (simp add: defineProperty_def)

lemma defineProperty_absent:
  assumes "fst p \<notin> fst ` set ps"
  shows "\<exists>P. defineProperty ps p = takeWhile P ps @ [p] @ dropWhile P ps"
proof (cases "arrayIndex (fst p)")
  case None
  have shape: "takeWhile (\<lambda>q. True) ps @ [p] @ dropWhile (\<lambda>q. True) ps = ps @ [p]"
    by simp
  from None assms have "defineProperty ps p = ps @ [p]" by (simp add: defineProperty_def)
  then have "defineProperty ps p = takeWhile (\<lambda>q. True) ps @ [p] @ dropWhile (\<lambda>q. True) ps"
    by (simp only: shape)
  then show ?thesis by (rule exI [of _ "\<lambda>q. True"])
next
  case (Some i)
  with assms have "defineProperty ps p = takeWhile (indexBelow i) ps @ [p] @ dropWhile (indexBelow i) ps"
    by (simp add: defineProperty_def)
  then show ?thesis by (rule exI [of _ "indexBelow i"])
qed

lemma replace_keys: "map (fst \<circ> (\<lambda>q. if fst q = fst p then p else q)) ps = map fst ps"
  by (induction ps) auto

lemma insert_middle_set: "set (takeWhile P ps @ [p] @ dropWhile P ps) = insert p (set ps)"
proof -
  have "set (takeWhile P ps @ dropWhile P ps) = set ps" by simp
  then have "set (takeWhile P ps) \<union> set (dropWhile P ps) = set ps" by (simp only: set_append)
  then show ?thesis by auto
qed

lemma insert_middle_keys:
  "map fst (takeWhile P ps) @ map fst (dropWhile P ps) = map fst ps"
proof -
  have "map fst (takeWhile P ps @ dropWhile P ps) = map fst ps" by simp
  then show ?thesis by (simp only: map_append)
qed

lemma map_of_replace_other:
  "k \<noteq> fst p \<Longrightarrow> map_of (map (\<lambda>q. if fst q = fst p then p else q) ps) k = map_of ps k"
  by (induction ps) auto

lemma map_of_replace_same:
  "fst p \<in> fst ` set ps \<Longrightarrow>
   map_of (map (\<lambda>q. if fst q = fst p then p else q) ps) (fst p) = Some (snd p)"
proof (induction ps)
  case Nil
  then show ?case by simp
next
  case (Cons a ps)
  show ?case
  proof (cases "fst a = fst p")
    case True
    then show ?thesis by (cases p) simp
  next
    case False
    with Cons.prems have "fst p \<in> fst ` set ps" by auto
    with Cons.IH False show ?thesis by (cases a) simp
  qed
qed

lemma defineProperty_set: "set (defineProperty ps p) \<subseteq> insert p (set ps)"
proof (cases "fst p \<in> fst ` set ps")
  case True
  then show ?thesis by (auto simp: defineProperty_present)
next
  case False
  from defineProperty_absent [OF False] insert_middle_set [of _ ps p] show ?thesis by auto
qed

lemma defineProperty_keys:
  "fst ` set (defineProperty ps p) = insert (fst p) (fst ` set ps)"
proof (cases "fst p \<in> fst ` set ps")
  case True
  have "fst ` set (map (\<lambda>q. if fst q = fst p then p else q) ps)
      = set (map (fst \<circ> (\<lambda>q. if fst q = fst p then p else q)) ps)"
    by (simp only: set_map image_comp map_map [symmetric])
  also have "\<dots> = fst ` set ps" by (simp only: replace_keys set_map)
  finally show ?thesis using True by (simp add: defineProperty_present insert_absorb)
next
  case False
  from defineProperty_absent [OF False] obtain P where
    "defineProperty ps p = takeWhile P ps @ [p] @ dropWhile P ps" ..
  then have "set (defineProperty ps p) = insert p (set ps)" by (simp only: insert_middle_set)
  then show ?thesis by simp
qed

lemma defineProperty_distinct:
  assumes "distinct (map fst ps)"
  shows "distinct (map fst (defineProperty ps p))"
proof (cases "fst p \<in> fst ` set ps")
  case True
  with assms show ?thesis by (simp add: defineProperty_present replace_keys)
next
  case False
  from defineProperty_absent [OF False] obtain P where
    shape: "defineProperty ps p = takeWhile P ps @ [p] @ dropWhile P ps" ..
  from assms insert_middle_keys [of P ps]
  have d: "distinct (map fst (takeWhile P ps) @ map fst (dropWhile P ps))" by simp
  have "set (takeWhile P ps) \<subseteq> set ps" "set (dropWhile P ps) \<subseteq> set ps"
    by (auto dest: set_takeWhileD set_dropWhileD)
  with False have "fst p \<notin> fst ` set (takeWhile P ps)" "fst p \<notin> fst ` set (dropWhile P ps)"
    by auto
  with d show ?thesis unfolding shape by auto
qed

lemma defineProperty_map_of:
  "map_of (defineProperty ps p) = (map_of ps)(fst p \<mapsto> snd p)"
proof (cases "fst p \<in> fst ` set ps")
  case True
  then have "map_of (map (\<lambda>q. if fst q = fst p then p else q) ps) k
      = ((map_of ps)(fst p \<mapsto> snd p)) k" for k
    by (cases "k = fst p") (simp_all add: map_of_replace_other map_of_replace_same)
  with True show ?thesis by (simp add: defineProperty_present fun_eq_iff)
next
  case False
  from defineProperty_absent [OF False] obtain P where
    shape: "defineProperty ps p = takeWhile P ps @ [p] @ dropWhile P ps" ..
  have tw: "set (takeWhile P ps) \<subseteq> set ps" by (auto dest: set_takeWhileD)
  have whole: "map_of ps = map_of (dropWhile P ps) ++ map_of (takeWhile P ps)"
    by (metis map_of_append takeWhile_dropWhile_id)
  have "map_of (takeWhile P ps @ [p] @ dropWhile P ps) k = ((map_of ps)(fst p \<mapsto> snd p)) k" for k
  proof (cases "k = fst p")
    case True
    from False tw have "fst p \<notin> fst ` set (takeWhile P ps)" by auto
    then have "map_of (takeWhile P ps) (fst p) = None" by (simp add: map_of_eq_None_iff)
    with True show ?thesis by (cases p) (simp add: map_add_def)
  next
    case False
    then show ?thesis by (cases p) (simp add: whole map_add_def split: option.splits)
  qed
  then show ?thesis unfolding shape by (simp only: fun_eq_iff) simp
qed

lemma foldl_defineProperty:
  "distinct (map fst acc) \<Longrightarrow>
     distinct (map fst (foldl defineProperty acc qs))
   \<and> map_of (foldl defineProperty acc qs) = map_of (rev qs @ acc)
   \<and> set (foldl defineProperty acc qs) \<subseteq> set acc \<union> set qs
   \<and> fst ` set (foldl defineProperty acc qs) = fst ` (set acc \<union> set qs)"
proof (induction qs arbitrary: acc)
  case Nil
  then show ?case by simp
next
  case (Cons q qs)
  from Cons.IH [OF defineProperty_distinct [OF Cons.prems, of q]]
  have ih: "distinct (map fst (foldl defineProperty (defineProperty acc q) qs))"
    "map_of (foldl defineProperty (defineProperty acc q) qs) = map_of (rev qs @ defineProperty acc q)"
    "set (foldl defineProperty (defineProperty acc q) qs) \<subseteq> set (defineProperty acc q) \<union> set qs"
    "fst ` set (foldl defineProperty (defineProperty acc q) qs)
       = fst ` (set (defineProperty acc q) \<union> set qs)"
    by auto
  have m: "map_of (rev qs @ defineProperty acc q) = map_of (rev (q # qs) @ acc)"
    by (cases q) (simp add: defineProperty_map_of map_add_def fun_eq_iff)
  have k: "fst ` (set (defineProperty acc q) \<union> set qs) = fst ` (set acc \<union> set (q # qs))"
    using defineProperty_keys [of acc q] by (simp add: image_Un)
  from ih(3) defineProperty_set [of acc q]
  have s: "set (foldl defineProperty (defineProperty acc q) qs) \<subseteq> set acc \<union> set (q # qs)"
    by auto
  from ih(1) ih(2) m s ih(4) k show ?case by simp
qed

lemma printed_strings: "printed (map (\<lambda>e. (fst e, JString (snd e))) es) = Some es"
  by (induction es) (auto simp: printed_def)

lemma filter_distinct_key:
  "distinct (map fst xs) \<Longrightarrow> (k, v) \<in> set xs \<Longrightarrow> filter (\<lambda>e. fst e = k) xs = [(k, v)]"
proof (induction xs)
  case Nil
  then show ?case by simp
next
  case (Cons x xs)
  show ?case
  proof (cases "fst x = k")
    case True
    with Cons.prems have x: "x = (k, v)" by (cases x) (auto simp: image_iff)
    from Cons.prems True have "\<forall>e\<in>set xs. fst e \<noteq> k" by (auto simp: image_iff)
    then have "filter (\<lambda>e. fst e = k) xs = []" by (simp add: filter_empty_conv)
    with x show ?thesis by simp
  next
    case False
    with Cons show ?thesis by auto
  qed
qed

text \<open>
  C9. When the manifest gives its runtime and its development dependencies as
  objects of version strings and a name stands in both, the answer is a listing in
  which that name has exactly one entry, with the version of the development
  dependencies.
\<close>

theorem devDependencies_override:
  assumes sections: "manifestSections E st (Some (stringEntries runtime))
                       (Some (stringEntries development))"
      and keys: "distinct (map fst development)"
      and both: "(k, v1) \<in> set runtime" "(k, v2) \<in> set development"
  shows "\<exists>entries. fst (handleListDependencies m message E st) = Inr (dependencyListing entries)
           \<and> filter (\<lambda>e. fst e = k) entries = [(k, v2)]"
proof -
  let ?j = "\<lambda>e :: string \<times> string. (fst e, JString (snd e))"
  let ?u = "\<lambda>p :: string \<times> json. (fst p, case snd p of JString v \<Rightarrow> v | _ \<Rightarrow> [])"
  define merged where
    "merged = spread (Some (stringEntries runtime)) (Some (stringEntries development))"
  define entries where "entries = map ?u merged"
  have merged: "merged = foldl defineProperty [] (map ?j runtime @ map ?j development)"
    by (simp add: merged_def spread_def stringEntries_def)
  from foldl_defineProperty [of "[]" "map ?j runtime @ map ?j development"]
  have dist: "distinct (map fst merged)"
    and lookup: "map_of merged = map_of (rev (map ?j runtime @ map ?j development))"
    and sub: "set merged \<subseteq> set (map ?j runtime) \<union> set (map ?j development)"
    and names: "fst ` set merged = fst ` (set (map ?j runtime) \<union> set (map ?j development))"
    unfolding merged by auto
  have restore: "merged = map ?j entries"
  proof -
    have "\<forall>p\<in>set merged. ?j (?u p) = p" using sub by auto
    then have "map (\<lambda>p. ?j (?u p)) merged = merged" by (simp add: map_idI)
    then show ?thesis by (simp add: entries_def comp_def)
  qed
  from both(2) have "fst (?j (k, v2)) \<in> fst ` set merged" unfolding names by force
  then have nonempty: "merged \<noteq> []" by auto
  from restore have pr: "printed merged = Some entries" by (simp add: printed_strings)
  from handleListDependencies_sections [OF sections, of m message] nonempty pr
  have answer: "fst (handleListDependencies m message E st) = Inr (dependencyListing entries)"
    by (simp add: merged_def)
  have "distinct (map fst (rev (map ?j development)))"
    using keys by (simp add: rev_map [symmetric] comp_def distinct_rev del: rev_map)
  moreover from both(2) have "(k, JString v2) \<in> set (rev (map ?j development))" by force
  ultimately have "map_of (rev (map ?j development)) k = Some (JString v2)"
    by (rule map_of_is_SomeI)
  then have "map_of merged k = Some (JString v2)"
    unfolding lookup by (simp add: map_add_def)
  then have "(k, JString v2) \<in> set merged" by (rule map_of_SomeD)
  then have member: "(k, v2) \<in> set entries" unfolding entries_def by force
  have "map fst entries = map fst merged" by (simp add: entries_def comp_def)
  with dist have "distinct (map fst entries)" by simp
  from filter_distinct_key [OF this member] answer show ?thesis by blast
qed


theorem devDependencies_override_witness:
  "manifestSections overlapEnv sampleState (Some (stringEntries [(''a'', ''1''), (''b'', ''2'')]))
      (Some (stringEntries [(''b'', ''3'')]))
   \<and> (''b'', ''2'') \<in> set [(''a'', ''1''), (''b'', ''2'')]
   \<and> (''b'', ''3'') \<in> set [(''b'', ''3'')]
   \<and> fst (handleListDependencies dependenciesMatch ''list the packages'' overlapEnv sampleState)
       = Inr (dependencyListing [(''a'', ''1''), (''b'', ''3'')])
   \<and> (\<exists>entries. fst (handleListDependencies dependenciesMatch ''list the packages'' overlapEnv
                       sampleState) = Inr (dependencyListing entries)
         \<and> filter (\<lambda>e. fst e = ''b'') entries = [(''b'', ''3'')])"
proof -
  let ?f = "\<lparr> path = ''package.json'', url = ''u2'' \<rparr>"
  let ?data = "JObject [(''dependencies'', JObject [(''a'', JString ''1''), (''b'', JString ''2'')]),
                        (''devDependencies'', JObject [(''b'', JString ''3'')])]"
  have loc: "findFileInStructure sampleState ''package.json'' = Some ?f" by code_simp
  have got: "fst (getFileContent overlapEnv (url ?f) sampleState) = Inr overlapManifest" by code_simp
  have parsed: "JSON_parse overlapEnv overlapManifest = Some ?data" by code_simp
  have d: "getProperty ?data ''dependencies'' = Inr (Some (stringEntries [(''a'', ''1''), (''b'', ''2'')]))"
    by (simp add: stringEntries_def)
  have v: "getProperty ?data ''devDependencies'' = Inr (Some (stringEntries [(''b'', ''3'')]))"
    by (simp add: stringEntries_def)
  from loc got have "manifestText overlapEnv sampleState overlapManifest"
    unfolding manifestText_def by blast
  with parsed d v have sec: "manifestSections overlapEnv sampleState
      (Some (stringEntries [(''a'', ''1''), (''b'', ''2'')])) (Some (stringEntries [(''b'', ''3'')]))"
    unfolding manifestSections_def by blast
  have keys: "distinct (map fst [(''b'', ''3'')])" by simp
  have b1: "(''b'', ''2'') \<in> set [(''a'', ''1''), (''b'', ''2'')]" by simp
  have b2: "(''b'', ''3'') \<in> set [(''b'', ''3'')]" by simp
  have shown: "fst (handleListDependencies dependenciesMatch ''list the packages'' overlapEnv sampleState)
       = Inr (dependencyListing [(''a'', ''1''), (''b'', ''3'')])" by code_simp
  from devDependencies_override [OF sec keys b1 b2, of dependenciesMatch "''list the packages''"]
    sec b1 b2 shown
  show ?thesis by blast
qed


section \<open>Explaining code\<close>

lemma run_Star:
  "run R n (Star a) s c =
     concat (map (\<lambda>(s', c'). if length s' < length s then run R n (Star a) s' c' else [])
                 (run R n a s c)) @ [(s, c)]"
  by (rule run.simps)

declare run.simps(9) [simp del]

lemma run_shorter:
  "(s', c') \<in> set (run R n a s c) \<Longrightarrow> length s' \<le> length s"
proof (induction R n a s c arbitrary: s' c' rule: run.induct)
  case (1 R n w s c)
  then show ?case by (auto split: if_splits)
next
  case (2 R n items s c)
  then show ?case by (auto split: list.splits if_splits)
next
  case (3 R n s c)
  then show ?case by (auto split: list.splits if_splits)
next
  case (4 R n s c)
  then show ?case by (auto split: if_splits)
next
  case (5 R n s c)
  then show ?case by (auto split: if_splits)
next
  case (6 R n a b s c)
  from "6.prems" obtain s1 c1 where 1: "(s1, c1) \<in> set (run R n a s c)"
    and 2: "(s', c') \<in> set (run R n b s1 c1)" by auto
  from "6.IH"(1) [OF 1] "6.IH"(2) [OF 1 refl 2] show ?case by simp
next
  case (7 R n a b s c)
  then show ?case by auto
next
  case (8 R n a s c)
  then show ?case by auto
next
  case (9 R n a s c)
  from "9.prems" [unfolded run_Star [of R n a s c]]
  consider "(s', c') = (s, c)"
    | s1 c1 where "(s1, c1) \<in> set (run R n a s c)" "length s1 < length s"
        "(s', c') \<in> set (run R n (Star a) s1 c1)"
    by (auto split: if_splits)
  then show ?case
  proof cases
    case 1
    then show ?thesis by simp
  next
    case 2
    from "9.IH"(2) [OF 2(1) refl 2(2) 2(3)] 2(2) show ?thesis by simp
  qed
next
  case (10 R n k a s c)
  then show ?case by auto
qed

lemma run_context:
  "anchorFree a \<Longrightarrow> (s', c') \<in> set (run R n a s c)
   \<Longrightarrow> (s' @ t, c') \<in> set (run R n' a (s @ t) c)"
proof (induction R n a s c arbitrary: s' c' rule: run.induct)
  case (1 R n w s c)
  then show ?case by (auto split: if_splits)
next
  case (2 R n items s c)
  then show ?case by (auto split: list.splits if_splits)
next
  case (3 R n s c)
  then show ?case by (auto split: list.splits if_splits)
next
  case (4 R n s c)
  then show ?case by simp
next
  case (5 R n s c)
  then show ?case by simp
next
  case (6 R n a b s c)
  from "6.prems" obtain s1 c1 where 1: "(s1, c1) \<in> set (run R n a s c)"
    and 2: "(s', c') \<in> set (run R n b s1 c1)" by auto
  from "6.prems"(1) have fa: "anchorFree a" and fb: "anchorFree b" by simp_all
  from "6.IH"(1) [OF fa 1] have "(s1 @ t, c1) \<in> set (run R n' a (s @ t) c)" .
  moreover from "6.IH"(2) [OF 1 refl fb 2] have "(s' @ t, c') \<in> set (run R n' b (s1 @ t) c1)" .
  ultimately show ?case by force
next
  case (7 R n a b s c)
  then show ?case by auto
next
  case (8 R n a s c)
  from "8.prems" consider "(s', c') = (s, c)"
    | "(s', c') \<in> set (run R n a s c)" "length s' < length s" by auto
  then show ?case
  proof cases
    case 1
    then show ?thesis by simp
  next
    case 2
    from "8.IH" [OF _ 2(1)] "8.prems"(1) have "(s' @ t, c') \<in> set (run R n' a (s @ t) c)" by simp
    with 2(2) show ?thesis by simp
  qed
next
  case (9 R n a s c)
  from "9.prems" [unfolded run_Star [of R n a s c]]
  consider "(s', c') = (s, c)"
    | s1 c1 where "(s1, c1) \<in> set (run R n a s c)" "length s1 < length s"
        "(s', c') \<in> set (run R n (Star a) s1 c1)"
    by (auto split: if_splits)
  then show ?case
  proof cases
    case 1
    then show ?thesis by (subst run_Star) simp
  next
    case 2
    from "9.prems"(1) have fa: "anchorFree a" by simp
    from "9.IH"(1) [OF fa 2(1)] have a: "(s1 @ t, c1) \<in> set (run R n' a (s @ t) c)" .
    from "9.IH"(2) [OF 2(1) refl 2(2) "9.prems"(1) 2(3)]
    have b: "(s' @ t, c') \<in> set (run R n' (Star a) (s1 @ t) c1)" .
    from 2(2) have "length (s1 @ t) < length (s @ t)" by simp
    with a b show ?thesis by (subst run_Star) force
  qed
next
  case (10 R n k a s c)
  from "10.prems" obtain c0 where 1: "(s', c0) \<in> set (run R n a s c)"
    and c': "c' = (k, take (length s - length s') s) # c0" by auto
  from "10.prems"(1) have fa: "anchorFree a" by simp
  from "10.IH" [OF fa 1] have a: "(s' @ t, c0) \<in> set (run R n' a (s @ t) c)" .
  from run_shorter [OF 1] have "take (length (s @ t) - length (s' @ t)) (s @ t) = take (length s - length s') s"
    by simp
  with a c' show ?case by force
qed

lemma exec_from_complete:
  "run R n (source R) t [] \<noteq> [] \<Longrightarrow> exec_from R n (pre @ t) \<noteq> None"
proof (induction pre)
  case Nil
  then show ?case by (cases t) (auto split: list.splits)
next
  case (Cons x pre)
  then show ?case by (auto split: list.splits)
qed

lemma test_context:
  assumes free: "anchorFree (source R)" and line: "test R line"
  shows "test R (pre @ line @ post)"
proof -
  from line obtain m where "exec_from R (length line) line = Some m"
    by (auto simp: test_def match_def)
  from exec_from_Some [OF this] obtain p t where l: "line = p @ t"
    and r: "run R (length line) (source R) t [] \<noteq> []" by blast
  from r obtain s' c' where "(s', c') \<in> set (run R (length line) (source R) t [])"
    by (cases "run R (length line) (source R) t []") auto
  from run_context [OF free this, of post "length (pre @ line @ post)"]
  have "run R (length (pre @ line @ post)) (source R) (t @ post) [] \<noteq> []" by auto
  from exec_from_complete [OF this, of "pre @ p"] l show ?thesis
    by (simp add: test_def match_def)
qed

lemma split_head: "\<exists>l ls post. split d content = l # ls \<and> content = l @ post"
proof (induction content)
  case Nil
  then show ?case by simp
next
  case (Cons x content)
  then obtain l ls post where sp: "split d content = l # ls" and t: "content = l @ post" by blast
  show ?case
  proof (cases "x = d")
    case True
    then have "split d (x # content) = [] # split d content \<and> x # content = [] @ (x # content)" by simp
    then show ?thesis by blast
  next
    case False
    with sp t have "split d (x # content) = (x # l) # ls \<and> x # content = (x # l) @ post" by simp
    then show ?thesis by blast
  qed
qed

lemma split_member:
  "line \<in> set (split d content) \<Longrightarrow> \<exists>pre post. content = pre @ line @ post"
proof (induction content arbitrary: line)
  case Nil
  then have "[] = [] @ line @ []" by simp
  then show ?case by blast
next
  case (Cons x content)
  show ?case
  proof (cases "x = d")
    case True
    with Cons.prems consider "line = []" | "line \<in> set (split d content)" by auto
    then show ?thesis
    proof cases
      case 1
      then have "x # content = [] @ line @ (x # content)" by simp
      then show ?thesis by blast
    next
      case 2
      with Cons.IH obtain pre post where "content = pre @ line @ post" by blast
      then have "x # content = (x # pre) @ line @ post" by simp
      then show ?thesis by blast
    qed
  next
    case False
    from split_head [of d content] obtain l ls post where sp: "split d content = l # ls"
      and t: "content = l @ post" by blast
    with False Cons.prems consider "line = x # l" | "line \<in> set ls" by auto
    then show ?thesis
    proof cases
      case 1
      with t have "x # content = [] @ line @ post" by simp
      then show ?thesis by blast
    next
      case 2
      with sp have "line \<in> set (split d content)" by simp
      with Cons.IH obtain pre post where "content = pre @ line @ post" by blast
      then have "x # content = (x # pre) @ line @ post" by simp
      then show ?thesis by blast
    qed
  qed
qed

lemma functionRegex_anchorFree: "anchorFree (source (functionRegex functionName))"
  by (simp add: functionRegex_def OneOrMore_def Let_def)

lemma declares_context:
  assumes "hasDeclaringLine functionName content"
  shows "declares functionName content"
proof -
  from assms obtain line where l: "line \<in> set (split (CHR 0x0A) content)"
    and d: "test (functionRegex functionName) line"
    by (auto simp: hasDeclaringLine_def declares_def)
  from split_member [OF l] obtain pre post where c: "content = pre @ line @ post" by blast
  from test_context [OF functionRegex_anchorFree d, of pre post] c show ?thesis
    by (simp add: declares_def)
qed

lemma findIndex_Some:
  "findIndex P xs = Some i \<longleftrightarrow> i < length xs \<and> P (xs ! i) \<and> (\<forall>j<i. \<not> P (xs ! j))"
proof (induction xs arbitrary: i)
  case Nil
  then show ?case by simp
next
  case (Cons x xs)
  show ?case
  proof (cases "P x")
    case True
    then show ?thesis by (cases i) auto
  next
    case False
    show ?thesis
    proof (cases i)
      case 0
      with False show ?thesis by auto
    next
      case (Suc k)
      have "(\<forall>j<Suc k. \<not> P ((x # xs) ! j)) \<longleftrightarrow> (\<forall>j<k. \<not> P (xs ! j))"
        using False by (auto simp: less_Suc_eq_0_disj)
      with Suc False Cons.IH [of k] show ?thesis by auto
    qed
  qed
qed

lemma findIndex_None: "findIndex P xs = None \<longleftrightarrow> (\<forall>x\<in>set xs. \<not> P x)"
  by (induction xs) auto

lemma findIndex_declaring:
  "findIndex (\<lambda>line. match line (functionRegex functionName) \<noteq> None) (split (CHR 0x0A) content)
     = Some i \<longleftrightarrow> firstDeclaringLine functionName content i"
  by (simp add: findIndex_Some firstDeclaringLine_def declares_def test_def Let_def)

lemma findIndex_no_declaring:
  "findIndex (\<lambda>line. match line (functionRegex functionName) \<noteq> None) (split (CHR 0x0A) content)
     = None \<longleftrightarrow> \<not> hasDeclaringLine functionName content"
  by (simp add: findIndex_None hasDeclaringLine_def declares_def test_def)

lemma getFileContent_keeps:
  "fileContentCache st u = Some v \<Longrightarrow> fileContentCache (snd (getFileContent E u' st)) u = Some v"
  by (auto simp: getFileContent_def split: option.splits)

lemma available_step:
  assumes "available E st c (f # fs)"
  shows "\<exists>st'. getFileContent E (url f) st = (Inr (c (url f)), st')
           \<and> available E st' c fs \<and> fileContentCache st' (url f) = Some (c (url f))"
proof -
  from assms have f: "fileContentCache st (url f) = Some (c (url f))
      \<or> (fileContentCache st (url f) = None \<and> (\<forall>n. fetchFileContent E n (url f) = Some (c (url f))))"
    and fs: "available E st c fs"
    by (simp_all add: available_def)
  from f show ?thesis
  proof
    assume hit: "fileContentCache st (url f) = Some (c (url f))"
    then have "getFileContent E (url f) st = (Inr (c (url f)), st)"
      by (simp add: getFileContent_def)
    with fs hit show ?thesis by blast
  next
    assume miss: "fileContentCache st (url f) = None
        \<and> (\<forall>n. fetchFileContent E n (url f) = Some (c (url f)))"
    define st' where "st' = st\<lparr> fetched := fetched st @ [url f],
        fileContentCache := (fileContentCache st)(url f \<mapsto> c (url f)) \<rparr>"
    from miss have g: "getFileContent E (url f) st = (Inr (c (url f)), st')"
      by (simp add: getFileContent_def st'_def)
    have "available E st' c fs"
      unfolding available_def
    proof
      fix g assume "g \<in> set fs"
      with fs have "fileContentCache st (url g) = Some (c (url g))
        \<or> (fileContentCache st (url g) = None \<and> (\<forall>n. fetchFileContent E n (url g) = Some (c (url g))))"
        by (simp add: available_def)
      then show "fileContentCache st' (url g) = Some (c (url g))
        \<or> (fileContentCache st' (url g) = None \<and> (\<forall>n. fetchFileContent E n (url g) = Some (c (url g))))"
        by (cases "url g = url f") (auto simp: st'_def)
    qed
    moreover have "fileContentCache st' (url f) = Some (c (url f))" by (simp add: st'_def)
    ultimately show ?thesis using g by blast
  qed
qed

lemma explainLoop_keeps:
  "fileContentCache st u = Some v \<Longrightarrow>
   fileContentCache (snd (explainLoop E functionName files st)) u = Some v"
proof (induction files arbitrary: st)
  case Nil
  then show ?case by simp
next
  case (Cons f files)
  obtain r st1 where g: "getFileContent E (url f) st = (r, st1)"
    by (cases "getFileContent E (url f) st")
  from getFileContent_keeps [OF Cons.prems, of E "url f"] g
  have k: "fileContentCache st1 u = Some v" by simp
  from Cons.IH [OF k] k g show ?case
    by (cases r) (auto simp: Let_def split: option.splits)
qed

lemma explainLoop_found:
  assumes "available E st c (before @ [entry])"
      and "\<forall>f\<in>set before. \<not> hasDeclaringLine functionName (c (url f))"
      and "hasDeclaringLine functionName (c (url entry))"
  shows "\<exists>i. firstDeclaringLine functionName (c (url entry)) i
           \<and> fst (explainLoop E functionName (before @ entry # after) st) =
               Inr (functionFound E functionName entry
                      (join [CHR 0x0A] (take 15 (drop i (split (CHR 0x0A) (c (url entry)))))))"
  using assms(1,2)
proof (induction before arbitrary: st)
  case Nil
  then have "available E st c (entry # [])" by simp
  from available_step [OF this] obtain st1 where
    g: "getFileContent E (url entry) st = (Inr (c (url entry)), st1)" by blast
  let ?content = "c (url entry)"
  let ?lines = "split (CHR 0x0A) ?content"
  let ?line = "\<lambda>line. match line (functionRegex functionName) \<noteq> None"
  from declares_context [OF assms(3)] have t: "test (functionRegex functionName) ?content"
    by (simp add: declares_def)
  from assms(3) findIndex_no_declaring [of functionName ?content]
  have "findIndex ?line ?lines \<noteq> None" by blast
  then obtain i where i: "findIndex ?line ?lines = Some i" by blast
  with findIndex_declaring [of functionName ?content i]
  have first: "firstDeclaringLine functionName ?content i" by blast
  from g t i have "fst (explainLoop E functionName ([] @ entry # after) st) =
      Inr (functionFound E functionName entry (join [CHR 0x0A] (take 15 (drop i ?lines))))"
    by (simp add: Let_def)
  with first show ?case by blast
next
  case (Cons f before)
  from Cons.prems(1) have "available E st c (f # (before @ [entry]))" by simp
  from available_step [OF this] obtain st1 where
    g: "getFileContent E (url f) st = (Inr (c (url f)), st1)"
    and av: "available E st1 c (before @ [entry])" by blast
  from Cons.prems(2) have no: "\<not> hasDeclaringLine functionName (c (url f))"
    and rest: "\<forall>f\<in>set before. \<not> hasDeclaringLine functionName (c (url f))" by simp_all
  from no findIndex_no_declaring [of functionName "c (url f)"]
  have none: "findIndex (\<lambda>line. match line (functionRegex functionName) \<noteq> None)
      (split (CHR 0x0A) (c (url f))) = None" by blast
  from g none have "explainLoop E functionName ((f # before) @ entry # after) st
      = explainLoop E functionName (before @ entry # after) st1"
    by (simp add: Let_def)
  with Cons.IH [OF av rest] show ?case by simp
qed

lemma explainLoop_not_found:
  assumes "available E st c files"
      and "\<forall>f\<in>set files. \<not> hasDeclaringLine functionName (c (url f))"
  shows "fst (explainLoop E functionName files st) = Inr (functionNotFound functionName)
       \<and> (\<forall>f\<in>set files.
            fileContentCache (snd (explainLoop E functionName files st)) (url f)
              = Some (c (url f)))"
  using assms
proof (induction files arbitrary: st)
  case Nil
  then show ?case by simp
next
  case (Cons f files)
  from available_step [OF Cons.prems(1)] obtain st1 where
    g: "getFileContent E (url f) st = (Inr (c (url f)), st1)"
    and av: "available E st1 c files"
    and cached: "fileContentCache st1 (url f) = Some (c (url f))" by blast
  from Cons.prems(2) have no: "\<not> hasDeclaringLine functionName (c (url f))"
    and rest: "\<forall>f\<in>set files. \<not> hasDeclaringLine functionName (c (url f))" by simp_all
  from no findIndex_no_declaring [of functionName "c (url f)"]
  have none: "findIndex (\<lambda>line. match line (functionRegex functionName) \<noteq> None)
      (split (CHR 0x0A) (c (url f))) = None" by blast
  from g none have step: "explainLoop E functionName (f # files) st
      = explainLoop E functionName files st1"
    by (simp add: Let_def)
  from explainLoop_keeps [OF cached]
  have kept: "fileContentCache (snd (explainLoop E functionName files st1)) (url f)
      = Some (c (url f))" .
  from Cons.IH [OF av rest] step kept show ?case by simp
qed

text \<open>
  What the handler of explain_code does for declarations that stand on one line. Let
  the function name be one of word characters, as the pattern of the rule captures
  it. If the scripts up to some script have their text at hand, in the cache or
  from the remote side, that script has a line in which the pattern for the name
  matches and no script before it has one, then the answer shows the lines of that
  script from the first such line on, fifteen of them or as many as are left, joined
  and highlighted, and the button to view that file. If every script has its text
  at hand and none has such a line, the answer is that the function was not found,
  and by then the text of every script is in the cache.
\<close>

theorem handleExplainCode_single_line_declaration:
  assumes name: "group m 2 = Some functionName"
      and word: "list_all isWordChar functionName"
  shows "(\<forall>before entry after.
            scripts st = before @ entry # after
            \<and> available E st c (before @ [entry])
            \<and> (\<forall>f\<in>set before. \<not> hasDeclaringLine functionName (c (url f)))
            \<and> hasDeclaringLine functionName (c (url entry)) \<longrightarrow>
            (\<exists>i. firstDeclaringLine functionName (c (url entry)) i
               \<and> fst (handleExplainCode m message E st) =
                   Inr (functionFound E functionName entry
                          (join [CHR 0x0A] (take 15 (drop i (split (CHR 0x0A) (c (url entry)))))))))
       \<and> (available E st c (scripts st)
            \<and> (\<forall>f\<in>set (scripts st). \<not> hasDeclaringLine functionName (c (url f))) \<longrightarrow>
            fst (handleExplainCode m message E st) = Inr (functionNotFound functionName)
            \<and> (\<forall>f\<in>set (scripts st).
                 fileContentCache (snd (handleExplainCode m message E st)) (url f)
                   = Some (c (url f))))"
proof -
  have h: "handleExplainCode m message E st = explainLoop E functionName (scripts st) st"
    using name by (simp add: handleExplainCode_def scripts_def Let_def)
  have found: "\<exists>i. firstDeclaringLine functionName (c (url entry)) i
               \<and> fst (handleExplainCode m message E st) =
                   Inr (functionFound E functionName entry
                          (join [CHR 0x0A] (take 15 (drop i (split (CHR 0x0A) (c (url entry)))))))"
    if "scripts st = before @ entry # after" and "available E st c (before @ [entry])"
      and "\<forall>f\<in>set before. \<not> hasDeclaringLine functionName (c (url f))"
      and "hasDeclaringLine functionName (c (url entry))" for before entry after
    using explainLoop_found [OF that(2,3,4), of after] that(1) unfolding h by simp
  have missing: "fst (handleExplainCode m message E st) = Inr (functionNotFound functionName)
            \<and> (\<forall>f\<in>set (scripts st).
                 fileContentCache (snd (handleExplainCode m message E st)) (url f)
                   = Some (c (url f)))"
    if "available E st c (scripts st)"
      and "\<forall>f\<in>set (scripts st). \<not> hasDeclaringLine functionName (c (url f))"
    using explainLoop_not_found [OF that] unfolding h .
  from found missing show ?thesis by blast
qed

text \<open>
  The sample script declares \<open>foo\<close> on its second line; the snippet is that line and
  the one after it, where the script ends.
\<close>

theorem handleExplainCode_single_line_declaration_sample:
  "group explainMatch 2 = Some ''foo''
   \<and> list_all isWordChar ''foo''
   \<and> scripts sampleState = [] @ \<lparr> path = ''src/app.js'', url = ''u1'' \<rparr> # []
   \<and> available sampleEnv sampleState (\<lambda>u. sampleScript) ([] @ [\<lparr> path = ''src/app.js'', url = ''u1'' \<rparr>])
   \<and> hasDeclaringLine ''foo'' sampleScript
   \<and> firstDeclaringLine ''foo'' sampleScript 1
   \<and> fst (handleExplainCode explainMatch ''explain foo do'' sampleEnv sampleState) =
        Inr (functionFound sampleEnv ''foo'' \<lparr> path = ''src/app.js'', url = ''u1'' \<rparr>
               (''function foo() {'' @ [CHR 0x0A] @ ''}''))"
proof -
  let ?f = "\<lparr> path = ''src/app.js'', url = ''u1'' \<rparr>"
  have name: "group explainMatch 2 = Some ''foo''" by code_simp
  have word: "list_all isWordChar ''foo''" by code_simp
  have sc: "scripts sampleState = [] @ ?f # []" by code_simp
  have cache: "fileContentCache sampleState ''u1'' = None" by code_simp
  have served: "\<forall>n. fetchFileContent sampleEnv n ''u1'' = Some sampleScript"
    by (simp add: sampleEnv_def)
  from cache served have av: "available sampleEnv sampleState (\<lambda>u. sampleScript) ([] @ [?f])"
    unfolding available_def by simp
  have has: "hasDeclaringLine ''foo'' sampleScript" by code_simp
  have "findIndex (\<lambda>line. match line (functionRegex ''foo'') \<noteq> None) (split (CHR 0x0A) sampleScript)
      = Some 1" by code_simp
  with findIndex_declaring [of "''foo''" sampleScript 1]
  have line: "firstDeclaringLine ''foo'' sampleScript 1" by blast
  have shown: "fst (handleExplainCode explainMatch ''explain foo do'' sampleEnv sampleState) =
        Inr (functionFound sampleEnv ''foo'' ?f (''function foo() {'' @ [CHR 0x0A] @ ''}''))"
    by code_simp
  from handleExplainCode_single_line_declaration [OF name word, of sampleState sampleEnv
      "\<lambda>u. sampleScript" "''explain foo do''", THEN conjunct1, rule_format, of "[]" ?f "[]"]
    sc av has
  have "\<exists>i. firstDeclaringLine ''foo'' sampleScript i
      \<and> fst (handleExplainCode explainMatch ''explain foo do'' sampleEnv sampleState) =
          Inr (functionFound sampleEnv ''foo'' ?f
                 (join [CHR 0x0A] (take 15 (drop i (split (CHR 0x0A) sampleScript)))))"
    by simp
  with name word sc av has line shown show ?thesis by blast
qed

text \<open>
  C8. For an identifier dispatched to the handler of explain_code, the first script
  whose text matches the pattern for the identifier should be answered with a
  snippet from the line where the match begins. The code does not do so when the
  match spans a line break. In a session whose only script is \<open>brokenScript\<close>, an
  arrow function whose parameters stand on two lines, the message \<open>explain foo do\<close>
  reaches the handler; the pattern, built with the flag \<open>s\<close>, matches in the text of
  the script; no single line of it matches, and the answer is that the function was
  found in no file.
\<close>

theorem handleExplainCode_misses_declaration_across_lines:
  "scripts sampleState = [\<lparr> path = ''src/app.js'', url = ''u1'' \<rparr>]
   \<and> fst (getFileContent brokenEnv ''u1'' sampleState) = Inr brokenScript
   \<and> declares ''foo'' brokenScript
   \<and> \<not> hasDeclaringLine ''foo'' brokenScript
   \<and> fst (generateChatbotResponse brokenEnv ''explain foo do'' sampleState)
       = Inr (functionNotFound ''foo'')"
  by code_simp

end
